theory Spec2Isabelle
  imports Main "HOL-Library.Multiset" "HOL-Library.FSet"
begin

section \<open>Strings\<close>

text \<open>
  A JavaScript string is a sequence of UTF-16 code units. The matching code applies
  regular expressions without the unicode flag, \<open>includes\<close>, \<open>substring\<close> and the
  relational operator \<open>>\<close>, all of which work code unit by code unit, so a string is
  modelled as the list of its code units.
\<close>

type_synonym jsstring = "nat list"

text \<open>An ASCII literal as a list of code units.\<close>

definition js :: "string \<Rightarrow> jsstring" where
  "js s = map of_char s"

text \<open>Truthiness of a value of type \<open>string | null | undefined\<close>, and \<open>v || ''\<close>.\<close>

definition truthy :: "jsstring option \<Rightarrow> bool" where
  "truthy v = (case v of None \<Rightarrow> False | Some s \<Rightarrow> s \<noteq> [])"

definition or_empty :: "jsstring option \<Rightarrow> jsstring" where
  "or_empty v = (case v of None \<Rightarrow> [] | Some s \<Rightarrow> s)"

text \<open>The class \<open>\s\<close> of ECMAScript: white space and line terminators.\<close>

definition is_space :: "nat \<Rightarrow> bool" where
  "is_space c =
     (c = 9 \<or> c = 10 \<or> c = 11 \<or> c = 12 \<or> c = 13 \<or> c = 32 \<or> c = 160 \<or> c = 5760
      \<or> (8192 \<le> c \<and> c \<le> 8202) \<or> c = 8232 \<or> c = 8233 \<or> c = 8239 \<or> c = 8287
      \<or> c = 12288 \<or> c = 65279)"

text \<open>The class \<open>\w\<close>: \<open>[A-Za-z0-9_]\<close>.\<close>

definition is_word :: "nat \<Rightarrow> bool" where
  "is_word c =
     ((48 \<le> c \<and> c \<le> 57) \<or> (65 \<le> c \<and> c \<le> 90) \<or> c = 95 \<or> (97 \<le> c \<and> c \<le> 122))"

text \<open>The range from U+AC00 to U+D7A3 of the Hangul syllables.\<close>

definition is_hangul :: "nat \<Rightarrow> bool" where
  "is_hangul c = (44032 \<le> c \<and> c \<le> 55203)"

text \<open>
  \<open>toLowerCase\<close> on the code units that survive the two replacements: the capital
  Latin letters move to the small ones, digits, the underscore and Hangul syllables
  have no case.
\<close>

definition to_lower :: "nat \<Rightarrow> nat" where
  "to_lower c = (if 65 \<le> c \<and> c \<le> 90 then c + 32 else c)"

definition normalizeString :: "jsstring \<Rightarrow> jsstring" where
  "normalizeString str =
     map to_lower
       (filter (\<lambda>c. is_word c \<or> is_hangul c)
         (filter (\<lambda>c. \<not> is_space c) str))"

fun starts_with :: "jsstring \<Rightarrow> jsstring \<Rightarrow> bool" where
  "starts_with _ [] = True"
| "starts_with [] (_ # _) = False"
| "starts_with (x # xs) (y # ys) = (x = y \<and> starts_with xs ys)"

text \<open>\<open>a.includes(b)\<close>: \<open>b\<close> occurs in \<open>a\<close> as a contiguous run.\<close>

fun js_includes :: "jsstring \<Rightarrow> jsstring \<Rightarrow> bool" where
  "js_includes [] b = (b = [])"
| "js_includes (x # xs) b = (starts_with (x # xs) b \<or> js_includes xs b)"

text \<open>\<open>a > b\<close> on strings: the lexicographic order of the code units.\<close>

fun js_gt :: "jsstring \<Rightarrow> jsstring \<Rightarrow> bool" where
  "js_gt [] _ = False"
| "js_gt (_ # _) [] = True"
| "js_gt (x # xs) (y # ys) = (y < x \<or> (x = y \<and> js_gt xs ys))"

definition isNameMatch :: "jsstring \<Rightarrow> jsstring \<Rightarrow> bool" where
  "isNameMatch clientName depositor =
     (if clientName = [] \<or> depositor = [] then False
      else
        let normalizedClient = normalizeString clientName;
            normalizedDepositor = normalizeString depositor
        in js_includes normalizedDepositor normalizedClient
           \<or> js_includes normalizedClient normalizedDepositor)"


section \<open>Numbers\<close>

text \<open>
  An amount is a JavaScript number, that is a double. The records hold integer amounts;
  an integer in a record stands for the double of that value, and every integer of
  magnitude up to \<open>2 ^ 53\<close> is one. A sum or difference that the code computes is the
  double nearest to the exact result, with ties going to the even significand, and it
  is infinite when the rounded magnitude reaches \<open>2 ^ 1024\<close>.
\<close>

datatype number = Fin int | PosInf | NegInf

fun bit_length :: "nat \<Rightarrow> nat" where
  "bit_length n = (if n = 0 then 0 else Suc (bit_length (n div 2)))"

declare bit_length.simps [simp del]

text \<open>Rounding a magnitude to 53 significant bits.\<close>

definition round_magnitude :: "nat \<Rightarrow> nat" where
  "round_magnitude n =
     (if n \<le> 2 ^ 53 then n
      else
        let k = bit_length n - 53;
            q = n div 2 ^ k;
            r = n mod 2 ^ k;
            h = 2 ^ (k - 1)
        in (if h < r \<or> (r = h \<and> odd q) then q + 1 else q) * 2 ^ k)"

definition round_double :: "int \<Rightarrow> number" where
  "round_double x =
     (let v = round_magnitude (nat \<bar>x\<bar>)
      in if 2 ^ 1024 \<le> v then (if 0 < x then PosInf else NegInf)
         else Fin (if 0 \<le> x then int v else - int v))"

text \<open>\<open>a + b\<close> for an accumulated sum \<open>a\<close> and an amount \<open>b\<close>.\<close>

definition js_add :: "number \<Rightarrow> int \<Rightarrow> number" where
  "js_add a b =
     (case a of Fin x \<Rightarrow> round_double (x + b) | PosInf \<Rightarrow> PosInf | NegInf \<Rightarrow> NegInf)"

text \<open>\<open>a - b\<close> for an amount \<open>a\<close> and an accumulated sum \<open>b\<close>.\<close>

definition js_sub :: "int \<Rightarrow> number \<Rightarrow> number" where
  "js_sub a b =
     (case b of Fin y \<Rightarrow> round_double (a - y) | PosInf \<Rightarrow> NegInf | NegInf \<Rightarrow> PosInf)"

text \<open>\<open>a > t\<close> for an accumulated sum \<open>a\<close> and an amount \<open>t\<close>.\<close>

definition num_gt :: "number \<Rightarrow> int \<Rightarrow> bool" where
  "num_gt a t = (case a of Fin x \<Rightarrow> t < x | PosInf \<Rightarrow> True | NegInf \<Rightarrow> False)"

section \<open>Data model\<close>

text \<open>
  The records carry the fields of \<open>types/index.ts\<close> that the reconciliation code reads or
  copies; amounts are integers of the smallest currency unit.
\<close>

record client =
  c_id :: jsstring
  c_name :: jsstring
  c_parent_id :: "jsstring option"

datatype transaction_status = Quote | Design | Production | Completed | Card

record transaction =
  t_id :: jsstring
  t_client_id :: "jsstring option"
  t_amount :: int
  t_order_date :: "jsstring option"
  t_status :: transaction_status
  t_paid_at :: "jsstring option"
  t_clients :: "client option"

record bank_record =
  b_id :: jsstring
  b_transaction_date :: jsstring
  b_description :: "jsstring option"
  b_depositor :: "jsstring option"
  b_amount :: int
  b_is_matched :: bool

datatype match_type = Exact | Partial

record match_result =
  m_transaction :: transaction
  m_bankRecord :: bank_record
  m_matchType :: match_type

record group_match_result =
  g_transactions :: "transaction list"
  g_bankRecord :: bank_record
  g_clientName :: jsstring
  g_totalAmount :: int

section \<open>Single matching\<close>

text \<open>The filter of the outstanding transactions: not completed, not paid by card, no paid date.\<close>

definition is_pending :: "transaction \<Rightarrow> bool" where
  "is_pending t = (t_status t \<noteq> Completed \<and> t_status t \<noteq> Card \<and> \<not> truthy (t_paid_at t))"

text \<open>\<open>transaction.clients?.name || ''\<close>\<close>

definition clientNameOf :: "transaction \<Rightarrow> jsstring" where
  "clientNameOf t = (case t_clients t of None \<Rightarrow> [] | Some c \<Rightarrow> c_name c)"

text \<open>\<open>s.substring(0, 4)\<close>\<close>

definition year_of :: "jsstring \<Rightarrow> jsstring" where
  "year_of s = take 4 s"

text \<open>
  The inner loop of \<open>performMatching\<close> over the unmatched records, for one transaction:
  every \<open>continue\<close> goes on with the rest of the records, the \<open>break\<close> after the push
  returns the extended result list.
\<close>

fun scanRecords :: "match_result list \<Rightarrow> transaction \<Rightarrow> bank_record list \<Rightarrow> match_result list" where
  "scanRecords results t [] = results"
| "scanRecords results t (record # records) =
     (if \<exists>r \<in> set results. b_id (m_bankRecord r) = b_id record
        then scanRecords results t records
      else if t_amount t \<noteq> b_amount record
        then scanRecords results t records
      else if truthy (map_option year_of (t_order_date t))
              \<and> map_option year_of (t_order_date t) \<noteq> Some (year_of (b_transaction_date record))
        then scanRecords results t records
      else if truthy (t_order_date t)
              \<and> js_gt (or_empty (t_order_date t)) (b_transaction_date record)
        then scanRecords results t records
      else if clientNameOf t \<noteq> [] \<and> isNameMatch (clientNameOf t) (or_empty (b_depositor record))
        then results @ [\<lparr>m_transaction = t, m_bankRecord = record, m_matchType = Exact\<rparr>]
      else scanRecords results t records)"

definition performMatching :: "transaction list \<Rightarrow> bank_record list \<Rightarrow> match_result list" where
  "performMatching transactions bankRecords =
     (let unmatchedRecords = filter (\<lambda>r. \<not> b_is_matched r) bankRecords;
          pendingTransactions = filter is_pending transactions
      in foldl (\<lambda>results t. scanRecords results t unmatchedRecords) [] pendingTransactions)"

section \<open>Combination search\<close>

text \<open>The exact sum of the amounts, and the exact sum of their magnitudes.\<close>

definition sum_amounts :: "transaction list \<Rightarrow> int" where
  "sum_amounts ts = sum_list (map t_amount ts)"

definition sum_abs :: "transaction list \<Rightarrow> int" where
  "sum_abs ts = sum_list (map (\<lambda>t. \<bar>t_amount t\<bar>) ts)"

text \<open>The sum as the code accumulates it: from 0, left to right, each step a double addition.\<close>

definition js_sum :: "transaction list \<Rightarrow> number" where
  "js_sum ts = foldl (\<lambda>sum t. js_add sum (t_amount t)) (Fin 0) ts"

text \<open>
  The closure \<open>backtrack\<close> with the variables it captures (\<open>sorted\<close>, \<open>maxItems\<close>,
  \<open>targetAmount\<close>) as parameters. An array is truthy, so \<open>if (withCurrent)\<close> tests for
  a result that is not null.
\<close>

function backtrack ::
  "transaction list \<Rightarrow> nat \<Rightarrow> int \<Rightarrow> nat \<Rightarrow> number \<Rightarrow> transaction list \<Rightarrow> transaction list option" where
  "backtrack sortedTs maxItems targetAmount index currentSum selected =
     (if currentSum = Fin targetAmount \<and> 2 \<le> length selected then Some selected
      else if num_gt currentSum targetAmount \<or> maxItems \<le> index then None
      else
        (case backtrack sortedTs maxItems targetAmount (index + 1)
                (js_add currentSum (t_amount (sortedTs ! index)))
                (selected @ [sortedTs ! index]) of
           Some withCurrent \<Rightarrow> Some withCurrent
         | None \<Rightarrow> backtrack sortedTs maxItems targetAmount (index + 1) currentSum selected))"
  by pat_completeness auto
termination
  by (relation "measure (\<lambda>(sortedTs, maxItems, targetAmount, index, currentSum, selected). maxItems - index)")
     auto

declare backtrack.simps [simp del]

text \<open>
  \<open>[...transactions].sort((a, b) => b.amount - a.amount)\<close>: the sort of an array is
  stable, and the rounded difference of two amounts has the sign of the exact one, so
  this is the stable sort on the amount, largest first.
\<close>

definition sort_desc :: "transaction list \<Rightarrow> transaction list" where
  "sort_desc transactions = sort_key (\<lambda>t. - t_amount t) transactions"

definition findMatchingCombination :: "transaction list \<Rightarrow> int \<Rightarrow> transaction list option" where
  "findMatchingCombination transactions targetAmount =
     (let sortedTs = sort_desc transactions;
          maxItems = min (length sortedTs) 10
      in backtrack sortedTs maxItems targetAmount 0 (Fin 0) [])"

text \<open>The candidates the search looks at: the first ten of the sorted list.\<close>

definition top_ten :: "transaction list \<Rightarrow> transaction list" where
  "top_ten transactions = take 10 (sort_desc transactions)"

section \<open>Group matching\<close>

definition getParentClientId :: "transaction \<Rightarrow> jsstring option" where
  "getParentClientId t =
     (case t_clients t of
        None \<Rightarrow> None
      | Some c \<Rightarrow> Some (if truthy (c_parent_id c) then or_empty (c_parent_id c) else c_id c))"

text \<open>
  The \<open>Map\<close> from parent client id to transactions, as an association list in insertion
  order: \<open>get\<close>, \<open>push\<close> and \<open>set\<close> of one loop step append the transaction to the
  entry of its key, or add a new entry at the end.
\<close>

fun map_push ::
  "(jsstring \<times> transaction list) list \<Rightarrow> jsstring \<Rightarrow> transaction \<Rightarrow> (jsstring \<times> transaction list) list" where
  "map_push [] k t = [(k, [t])]"
| "map_push ((k', existing) # m) k t =
     (if k' = k then (k', existing @ [t]) # m else (k', existing) # map_push m k t)"

definition group_step ::
  "(jsstring \<times> transaction list) list \<Rightarrow> transaction \<Rightarrow> (jsstring \<times> transaction list) list" where
  "group_step m t =
     (case getParentClientId t of
        None \<Rightarrow> m
      | Some parentId \<Rightarrow> if parentId = [] then m else map_push m parentId t)"

definition transactionsByClient :: "transaction list \<Rightarrow> (jsstring \<times> transaction list) list" where
  "transactionsByClient pendingTransactions = foldl group_step [] pendingTransactions"

text \<open>
  The display name of a group, from its first available transaction: the name of the
  client joined to the first transaction of the whole input whose client has the
  parent's id, when there is a parent id, such a transaction is found and that name is
  not empty; the name of the transaction's own client otherwise.
\<close>

definition parentClientOf :: "transaction list \<Rightarrow> transaction \<Rightarrow> client option" where
  "parentClientOf transactions first =
     (case t_clients first of
        None \<Rightarrow> None
      | Some c \<Rightarrow>
          if truthy (c_parent_id c)
          then (case find (\<lambda>t. case t_clients t of None \<Rightarrow> False
                                 | Some c' \<Rightarrow> Some (c_id c') = c_parent_id c) transactions of
                  None \<Rightarrow> None
                | Some t \<Rightarrow> t_clients t)
          else None)"

definition displayNameOf :: "transaction list \<Rightarrow> transaction \<Rightarrow> jsstring" where
  "displayNameOf transactions first =
     (case parentClientOf transactions first of
        None \<Rightarrow> clientNameOf first
      | Some parentClient \<Rightarrow>
          if c_name parentClient \<noteq> [] then c_name parentClient else clientNameOf first)"

definition used_in :: "group_match_result list \<Rightarrow> transaction \<Rightarrow> bool" where
  "used_in results t = (\<exists>r \<in> set results. \<exists>rt \<in> set (g_transactions r). t_id rt = t_id t)"

text \<open>
  The loop over the groups for one record. The result list changes only at the push,
  which is followed by \<open>break\<close>.
\<close>

fun tryGroups ::
  "transaction list \<Rightarrow> group_match_result list \<Rightarrow> bank_record
   \<Rightarrow> (jsstring \<times> transaction list) list \<Rightarrow> group_match_result list" where
  "tryGroups transactions results record [] = results"
| "tryGroups transactions results record ((parentId, clientTransactions) # groups) =
     (let availableTransactions = filter (\<lambda>t. \<not> used_in results t) clientTransactions
      in case availableTransactions of
           first # _ # _ \<Rightarrow>
             (let displayName = displayNameOf transactions first
              in if \<not> isNameMatch displayName (or_empty (b_depositor record))
                 then tryGroups transactions results record groups
                 else
                   (case findMatchingCombination availableTransactions (b_amount record) of
                      None \<Rightarrow> tryGroups transactions results record groups
                    | Some matchingCombination \<Rightarrow>
                        if 2 \<le> length matchingCombination
                        then results @ [\<lparr>g_transactions = matchingCombination,
                                         g_bankRecord = record,
                                         g_clientName = displayName,
                                         g_totalAmount = b_amount record\<rparr>]
                        else tryGroups transactions results record groups))
         | _ \<Rightarrow> tryGroups transactions results record groups)"

definition record_step ::
  "transaction list \<Rightarrow> (jsstring \<times> transaction list) list \<Rightarrow> group_match_result list
   \<Rightarrow> bank_record \<Rightarrow> group_match_result list" where
  "record_step transactions groups results record =
     (if \<exists>r \<in> set results. b_id (g_bankRecord r) = b_id record then results
      else tryGroups transactions results record groups)"

definition performGroupMatching ::
  "transaction list \<Rightarrow> bank_record list \<Rightarrow> jsstring set \<Rightarrow> jsstring set \<Rightarrow> group_match_result list" where
  "performGroupMatching transactions bankRecords usedRecordIds usedTransactionIds =
     (let unmatchedRecords =
            filter (\<lambda>r. \<not> b_is_matched r \<and> b_id r \<notin> usedRecordIds) bankRecords;
          pendingTransactions =
            filter (\<lambda>t. is_pending t \<and> t_id t \<notin> usedTransactionIds) transactions
      in foldl (record_step transactions (transactionsByClient pendingTransactions)) []
           unmatchedRecords)"

section \<open>Manual group matching on the upload page\<close>

text \<open>
  The part of the component state of \<open>UploadPage\<close> that the manual workflow reads and
  writes. The set of selected ids is a finite set; \<open>error\<close> is the text shown in the red
  box, which is rendered when it is not empty.
\<close>

record upload_state =
  groupMatchResults :: "group_match_result list"
  unmatchedRecords :: "bank_record list"
  unmatchedTransactions :: "transaction list"
  selectedRecordForGroup :: "bank_record option"
  selectedTransactionIds :: "jsstring fset"
  error :: jsstring

definition selectedTxsOf :: "upload_state \<Rightarrow> transaction list" where
  "selectedTxsOf s =
     filter (\<lambda>t. t_id t |\<in>| selectedTransactionIds s) (unmatchedTransactions s)"

definition selectedTransactionsTotal :: "upload_state \<Rightarrow> number" where
  "selectedTransactionsTotal s =
     foldl (\<lambda>sum t. js_add sum (t_amount t)) (Fin 0) (selectedTxsOf s)"

text \<open>
  The message of the amount check. \<open>formatCurrency\<close> wraps \<open>Intl.NumberFormat\<close> of the
  runtime and is a parameter here; the fixed parts are the code units of the template.
\<close>

definition mismatchMessage :: "(number \<Rightarrow> jsstring) \<Rightarrow> number \<Rightarrow> number \<Rightarrow> jsstring" where
  "mismatchMessage formatCurrency selectedTotal amount =
     [49440, 53469, 54620, 32, 44144, 47000, 32, 54633, 44228, 40] @ formatCurrency selectedTotal
     @ [41, 44032, 32, 51077, 44552, 50529, 40] @ formatCurrency amount
     @ [41, 44284, 32, 51068, 52824, 54616, 51648, 32, 50506, 49845, 45768, 45796, 46]"

text \<open>The name stored with a manual match: that of the first selected transaction's client.\<close>

definition unknownName :: jsstring where
  "unknownName = [50508, 32, 49688, 32, 50630, 51020]"

definition manualClientName :: "transaction list \<Rightarrow> jsstring" where
  "manualClientName selectedTxs =
     (case selectedTxs of
        [] \<Rightarrow> unknownName
      | t # _ \<Rightarrow> if clientNameOf t \<noteq> [] then clientNameOf t else unknownName)"

definition handleConfirmGroupMatch ::
  "(number \<Rightarrow> jsstring) \<Rightarrow> upload_state \<Rightarrow> upload_state" where
  "handleConfirmGroupMatch formatCurrency s =
     (case selectedRecordForGroup s of
        None \<Rightarrow> s
      | Some selected \<Rightarrow>
          if fcard (selectedTransactionIds s) < 2 then s
          else if selectedTransactionsTotal s \<noteq> Fin (b_amount selected)
          then s\<lparr>error := mismatchMessage formatCurrency (selectedTransactionsTotal s)
                             (Fin (b_amount selected))\<rparr>
          else
            s\<lparr>groupMatchResults :=
                 groupMatchResults s @
                   [\<lparr>g_transactions = selectedTxsOf s,
                     g_bankRecord = selected,
                     g_clientName = manualClientName (selectedTxsOf s),
                     g_totalAmount = b_amount selected\<rparr>],
               unmatchedRecords := filter (\<lambda>r. b_id r \<noteq> b_id selected) (unmatchedRecords s),
               unmatchedTransactions :=
                 filter (\<lambda>t. t_id t |\<notin>| selectedTransactionIds s) (unmatchedTransactions s),
               selectedRecordForGroup := None,
               selectedTransactionIds := {||},
               error := []\<rparr>)"

text \<open>
  What the panel of the selected deposit renders: the \<open>disabled\<close> property of the confirm
  button, and the number handed to \<open>formatCurrency\<close> in the difference row. Both exist
  only while a deposit is selected.
\<close>

definition confirmDisabled :: "upload_state \<Rightarrow> bool option" where
  "confirmDisabled s =
     map_option
       (\<lambda>selected. fcard (selectedTransactionIds s) < 2
                    \<or> selectedTransactionsTotal s \<noteq> Fin (b_amount selected))
       (selectedRecordForGroup s)"

definition displayedDifference :: "upload_state \<Rightarrow> number option" where
  "displayedDifference s =
     map_option (\<lambda>selected. js_sub (b_amount selected) (selectedTransactionsTotal s))
       (selectedRecordForGroup s)"

section \<open>Dates\<close>

text \<open>
  The parser keeps a bank record only if its date matches \<open>/^\d{4}-\d{2}-\d{2}$/\<close>.
  For strings of that form the code units read as decimal numbers give the year, the
  month and the day, and \<open>date_after\<close> is the calendar order on them.
\<close>

definition is_digit :: "nat \<Rightarrow> bool" where
  "is_digit c = (48 \<le> c \<and> c \<le> 57)"

definition matches_iso_date :: "jsstring \<Rightarrow> bool" where
  "matches_iso_date s =
     (length s = 10 \<and> list_all is_digit (take 4 s) \<and> s ! 4 = 45
      \<and> list_all is_digit (take 2 (drop 5 s)) \<and> s ! 7 = 45
      \<and> list_all is_digit (drop 8 s))"

fun digits_value :: "jsstring \<Rightarrow> nat" where
  "digits_value [] = 0"
| "digits_value (d # ds) = (d - 48) * 10 ^ length ds + digits_value ds"

definition year_num :: "jsstring \<Rightarrow> nat" where
  "year_num s = digits_value (take 4 s)"

definition month_num :: "jsstring \<Rightarrow> nat" where
  "month_num s = digits_value (take 2 (drop 5 s))"

definition day_num :: "jsstring \<Rightarrow> nat" where
  "day_num s = digits_value (drop 8 s)"

definition date_after :: "jsstring \<Rightarrow> jsstring \<Rightarrow> bool" where
  "date_after a b =
     (year_num b < year_num a
      \<or> (year_num b = year_num a
          \<and> (month_num b < month_num a
              \<or> (month_num b = month_num a \<and> day_num b < day_num a))))"

text \<open>A date put together from the digits of its year, month and day.\<close>

definition iso_date :: "jsstring \<Rightarrow> jsstring \<Rightarrow> jsstring \<Rightarrow> jsstring" where
  "iso_date y m d = y @ [45] @ m @ [45] @ d"

section \<open>Predicates used in the proofs\<close>

text \<open>What the inner loop of \<open>performMatching\<close> has checked when it pushes a pair.\<close>

definition pair_ok :: "transaction \<Rightarrow> bank_record \<Rightarrow> bool" where
  "pair_ok t d =
     (t_amount t = b_amount d
      \<and> (truthy (t_order_date t)
           \<longrightarrow> year_of (or_empty (t_order_date t)) = year_of (b_transaction_date d))
      \<and> (truthy (t_order_date t)
           \<longrightarrow> \<not> js_gt (or_empty (t_order_date t)) (b_transaction_date d))
      \<and> clientNameOf t \<noteq> []
      \<and> isNameMatch (clientNameOf t) (or_empty (b_depositor d)))"

text \<open>What holds of every transaction stored under a key of the grouping map.\<close>

definition group_ok :: "transaction list \<Rightarrow> jsstring \<Rightarrow> transaction \<Rightarrow> bool" where
  "group_ok pendingTransactions parentId t =
     (t \<in> set pendingTransactions \<and> getParentClientId t = Some parentId \<and> parentId \<noteq> [])"

text \<open>What the group loop has established when it pushes the result \<open>g\<close> for a record.\<close>

definition new_group ::
  "transaction list \<Rightarrow> (jsstring \<times> transaction list) list \<Rightarrow> group_match_result list
   \<Rightarrow> bank_record \<Rightarrow> group_match_result \<Rightarrow> bool" where
  "new_group transactions groups results rcd g =
     (\<exists>parentId clientTransactions first rest.
        (parentId, clientTransactions) \<in> set groups
        \<and> filter (\<lambda>t. \<not> used_in results t) clientTransactions = first # rest
        \<and> isNameMatch (displayNameOf transactions first) (or_empty (b_depositor rcd))
        \<and> set (g_transactions g) \<subseteq> set (first # rest)
        \<and> 2 \<le> length (g_transactions g)
        \<and> js_sum (g_transactions g) = Fin (b_amount rcd)
        \<and> g_bankRecord g = rcd
        \<and> g_clientName g = displayNameOf transactions first
        \<and> g_totalAmount g = b_amount rcd)"

definition group_shape :: "group_match_result \<Rightarrow> bool" where
  "group_shape g =
     (2 \<le> length (g_transactions g)
      \<and> (\<exists>parentId. \<forall>t \<in> set (g_transactions g). getParentClientId t = Some parentId)
      \<and> js_sum (g_transactions g) = Fin (b_amount (g_bankRecord g))
      \<and> g_totalAmount g = b_amount (g_bankRecord g))"

definition group_fresh :: "jsstring set \<Rightarrow> jsstring set \<Rightarrow> group_match_result \<Rightarrow> bool" where
  "group_fresh usedRecordIds usedTransactionIds g =
     (b_id (g_bankRecord g) \<notin> usedRecordIds
      \<and> \<not> b_is_matched (g_bankRecord g)
      \<and> (\<forall>t \<in> set (g_transactions g). t_id t \<notin> usedTransactionIds))"

text \<open>
  The grouping map after the transactions \<open>xs\<close>: one entry for each parent client id
  that is not empty, holding the transactions with that id in the order of \<open>xs\<close>.
\<close>

definition grouped :: "(jsstring \<times> transaction list) list \<Rightarrow> transaction list \<Rightarrow> bool" where
  "grouped m xs =
     (distinct (map fst m)
      \<and> (\<forall>(k, v) \<in> set m. k \<noteq> [] \<and> v = filter (\<lambda>t. getParentClientId t = Some k) xs)
      \<and> (\<forall>t \<in> set xs. \<forall>k. getParentClientId t = Some k \<and> k \<noteq> [] \<longrightarrow> k \<in> fst ` set m))"

text \<open>Every result was pushed by the group loop when the results before it were there.\<close>

definition built_from ::
  "transaction list \<Rightarrow> (jsstring \<times> transaction list) list \<Rightarrow> group_match_result list \<Rightarrow> bool" where
  "built_from transactions groups results =
     (\<forall>i < length results.
        new_group transactions groups (take i results) (g_bankRecord (results ! i)) (results ! i))"

definition groups_disjoint :: "group_match_result list \<Rightarrow> bool" where
  "groups_disjoint results =
     (\<forall>i j. i < j \<and> j < length results
        \<longrightarrow> t_id ` set (g_transactions (results ! i))
              \<inter> t_id ` set (g_transactions (results ! j)) = {})"

section \<open>Example data\<close>

definition mkClient :: "jsstring \<Rightarrow> jsstring \<Rightarrow> jsstring option \<Rightarrow> client" where
  "mkClient i n p = \<lparr>c_id = i, c_name = n, c_parent_id = p\<rparr>"

text \<open>An outstanding transaction: status \<open>quote\<close>, no paid date.\<close>

definition mkTransaction ::
  "jsstring \<Rightarrow> int \<Rightarrow> jsstring option \<Rightarrow> client option \<Rightarrow> transaction" where
  "mkTransaction i a d c =
     \<lparr>t_id = i, t_client_id = map_option c_id c, t_amount = a, t_order_date = d,
      t_status = Quote, t_paid_at = None, t_clients = c\<rparr>"

definition mkRecord :: "jsstring \<Rightarrow> jsstring \<Rightarrow> jsstring \<Rightarrow> int \<Rightarrow> bank_record" where
  "mkRecord i d dep a =
     \<lparr>b_id = i, b_transaction_date = d, b_description = None, b_depositor = Some dep,
      b_amount = a, b_is_matched = False\<rparr>"

definition clientABC :: client where
  "clientABC = mkClient (js ''c1'') (js ''ABC'') None"

definition txA :: transaction where
  "txA = mkTransaction (js ''t1'') 50000 (Some (js ''2024-01-01'')) (Some clientABC)"

definition recA :: bank_record where
  "recA = mkRecord (js ''r1'') (js ''2024-01-05'') (js ''ABC '' @ [54861, 44600, 46041]) 50000"

definition txB :: transaction where
  "txB = mkTransaction (js ''t2'') 50000 (Some (js ''2024-01-02'')) (Some clientABC)"

definition recA2 :: bank_record where
  "recA2 = mkRecord (js ''r2'') (js ''2024-01-06'') (js ''ABC'') 50000"

text \<open>Eleven candidates: ten of amount 100 and, last after sorting, one of amount 1.\<close>

definition eleven :: "transaction list" where
  "eleven =
     [mkTransaction (js ''e1'') 100 None None, mkTransaction (js ''e2'') 100 None None,
      mkTransaction (js ''e3'') 100 None None, mkTransaction (js ''e4'') 100 None None,
      mkTransaction (js ''e5'') 100 None None, mkTransaction (js ''e6'') 100 None None,
      mkTransaction (js ''e7'') 100 None None, mkTransaction (js ''e8'') 100 None None,
      mkTransaction (js ''e9'') 100 None None, mkTransaction (js ''e10'') 100 None None,
      mkTransaction (js ''e11'') 1 None None]"

text \<open>A parent client and one of its sub-clients, with two orders of the sub-client.\<close>

definition clientParent :: client where
  "clientParent = mkClient (js ''p1'') (js ''PARENT'') None"

definition clientSub :: client where
  "clientSub = mkClient (js ''s1'') (js ''SUB'') (Some (js ''p1''))"

definition txS1 :: transaction where
  "txS1 = mkTransaction (js ''t1'') 30000 None (Some clientSub)"

definition txS2 :: transaction where
  "txS2 = mkTransaction (js ''t2'') 20000 None (Some clientSub)"

definition txS4 :: transaction where
  "txS4 = mkTransaction (js ''t4'') 30000 None (Some clientSub)"

definition txS5 :: transaction where
  "txS5 = mkTransaction (js ''t5'') 20000 None (Some clientSub)"

definition txP :: transaction where
  "txP = mkTransaction (js ''t3'') 7000 None (Some clientParent)"

definition recSub :: bank_record where
  "recSub = mkRecord (js ''r1'') (js ''2024-01-05'') (js ''SUB'') 50000"

definition recParent :: bank_record where
  "recParent = mkRecord (js ''r1'') (js ''2024-01-05'') (js ''PARENT'') 50000"

definition recParent2 :: bank_record where
  "recParent2 = mkRecord (js ''r2'') (js ''2024-01-06'') (js ''PARENT'') 50000"

definition recParent3 :: bank_record where
  "recParent3 = mkRecord (js ''r3'') (js ''2024-01-07'') (js ''PARENT'') 50000"

text \<open>A reconciled input: the record is matched, the transaction completed and paid.\<close>

definition recDone :: bank_record where
  "recDone = recA\<lparr>b_is_matched := True\<rparr>"

definition txDone :: transaction where
  "txDone = txA\<lparr>t_status := Completed, t_paid_at := Some (js ''2024-01-05'')\<rparr>"

text \<open>
  Two sub-clients of one parent that has no transaction of its own, each with one order.
\<close>

definition clientAlpha :: client where
  "clientAlpha = mkClient (js ''a1'') (js ''ALPHA'') (Some (js ''p1''))"

definition clientBeta :: client where
  "clientBeta = mkClient (js ''b1'') (js ''BETA'') (Some (js ''p1''))"

definition txAlpha :: transaction where
  "txAlpha = mkTransaction (js ''t1'') 30000 None (Some clientAlpha)"

definition txBeta :: transaction where
  "txBeta = mkTransaction (js ''t2'') 20000 None (Some clientBeta)"

definition recAlpha :: bank_record where
  "recAlpha = mkRecord (js ''r1'') (js ''2024-01-05'') (js ''ALPHA'') 50000"

text \<open>
  Amounts at the edge of the exact range: \<open>2 ^ 53\<close> and 1, whose sum is no double and
  rounds to \<open>2 ^ 53\<close>, with a deposit of \<open>2 ^ 53\<close>; and an order of \<open>- 2 ^ 53\<close>.
\<close>

definition txBig :: transaction where
  "txBig = mkTransaction (js ''b1'') (2 ^ 53) None (Some clientABC)"

definition txOne :: transaction where
  "txOne = mkTransaction (js ''b2'') 1 None (Some clientABC)"

definition txNegBig :: transaction where
  "txNegBig = mkTransaction (js ''b3'') (- (2 ^ 53)) None (Some clientABC)"

definition txRest :: transaction where
  "txRest = mkTransaction (js ''b4'') 48999 None (Some clientABC)"

definition recBig :: bank_record where
  "recBig = mkRecord (js ''r1'') (js ''2024-01-05'') (js ''ABC'') (2 ^ 53)"

text \<open>
  States of the manual workflow with a deposit of 50000 selected: the orders of 30000,
  12000 and 7000 selected, those of 30000, 12000 and 8000, and that of 19000 alone.
  Then a deposit of \<open>2 ^ 53\<close> with the orders of \<open>2 ^ 53\<close> and 1 selected, and a deposit
  of 50000 with orders of \<open>2 ^ 53\<close>, 1, \<open>- 2 ^ 53\<close> and 48999 selected.
\<close>

definition manualPool :: "transaction list" where
  "manualPool =
     [mkTransaction (js ''t1'') 30000 None (Some clientABC),
      mkTransaction (js ''t2'') 19000 None (Some clientABC),
      mkTransaction (js ''t4'') 12000 None (Some clientABC),
      mkTransaction (js ''t5'') 7000 None (Some clientABC),
      mkTransaction (js ''t6'') 8000 None (Some clientABC)]"

definition manualState ::
  "transaction list \<Rightarrow> bank_record \<Rightarrow> jsstring fset \<Rightarrow> upload_state" where
  "manualState pool selected ids =
     \<lparr>groupMatchResults = [], unmatchedRecords = [selected], unmatchedTransactions = pool,
      selectedRecordForGroup = Some selected, selectedTransactionIds = ids, error = []\<rparr>"

definition stateShort :: upload_state where
  "stateShort = manualState manualPool recA {|js ''t1'', js ''t4'', js ''t5''|}"

definition stateExact :: upload_state where
  "stateExact = manualState manualPool recA {|js ''t1'', js ''t4'', js ''t6''|}"

definition stateSingle :: upload_state where
  "stateSingle = manualState manualPool recA {|js ''t2''|}"

definition stateBig :: upload_state where
  "stateBig = manualState [txBig, txOne] recBig {|js ''b1'', js ''b2''|}"

definition stateCancel :: upload_state where
  "stateCancel =
     manualState [txBig, txOne, txNegBig, txRest] recA
       {|js ''b1'', js ''b2'', js ''b3'', js ''b4''|}"

text \<open>A stand-in for the currency formatter of the runtime.\<close>

definition plainCurrency :: "number \<Rightarrow> jsstring" where
  "plainCurrency n = js ''KRW''"

section \<open>The name matcher on names that normalise to nothing\<close>

lemma js_includes_Nil: "js_includes a []"
  by (cases a) simp_all

lemma normalizeString_Nil_iff:
  "normalizeString s = [] \<longleftrightarrow> (\<forall>c \<in> set s. is_space c \<or> \<not> (is_word c \<or> is_hangul c))"
  by (auto simp: normalizeString_def filter_empty_conv)

text \<open>
  Claim C10. A client name that is not empty but whose normalisation is the empty string
  consists only of white space and of code units outside \<open>[A-Za-z0-9_]\<close> and outside
  the Hangul range, and \<open>isNameMatch\<close> answers true for it with every depositor that is
  not empty: the guard against empty inputs is applied before the normalisation only,
  and the empty string is contained in every string.
\<close>

theorem isNameMatch_empty_normalized:
  assumes "clientName \<noteq> []"
    and "depositor \<noteq> []"
    and "normalizeString clientName = []"
  shows "isNameMatch clientName depositor
         \<and> (\<forall>c \<in> set clientName. is_space c \<or> \<not> (is_word c \<or> is_hangul c))"
proof -
  have "js_includes (normalizeString depositor) []"
    by (rule js_includes_Nil)
  with assms have "isNameMatch clientName depositor"
    by (simp add: isNameMatch_def Let_def)
  with assms(3) show ?thesis
    by (simp add: normalizeString_Nil_iff)
qed

theorem isNameMatch_empty_normalized_witness:
  "[45, 32, 45] \<noteq> ([] :: jsstring) \<and> js ''abc'' \<noteq> [] \<and> normalizeString [45, 32, 45] = []
   \<and> isNameMatch [45, 32, 45] (js ''abc'')"
proof -
  have h: "normalizeString [45, 32, 45] = []"
    by (simp add: normalizeString_def is_space_def is_word_def is_hangul_def)
  have d: "js ''abc'' \<noteq> []"
    by (simp add: js_def)
  from isNameMatch_empty_normalized [of "[45, 32, 45]" "js ''abc''", OF _ d h] h d
  show ?thesis by simp
qed

section \<open>Single matching: the pairs and their uniqueness\<close>

lemmas example_defs =
  mkClient_def mkTransaction_def mkRecord_def clientABC_def txA_def txB_def recA_def recA2_def
  clientParent_def clientSub_def txS1_def txS2_def txS4_def txS5_def txP_def recSub_def
  recParent_def recParent2_def recParent3_def recDone_def txDone_def js_def
  clientAlpha_def clientBeta_def txAlpha_def txBeta_def recAlpha_def
  txBig_def txOne_def txNegBig_def txRest_def recBig_def

lemmas number_defs =
  js_add_def js_sub_def num_gt_def round_double_def round_magnitude_def

lemmas string_defs =
  isNameMatch_def normalizeString_def is_word_def is_hangul_def is_space_def to_lower_def
  truthy_def or_empty_def year_of_def clientNameOf_def

lemmas single_defs = performMatching_def is_pending_def

lemmas group_defs =
  performGroupMatching_def record_step_def transactionsByClient_def group_step_def
  getParentClientId_def used_in_def displayNameOf_def parentClientOf_def
  findMatchingCombination_def sort_desc_def backtrack.simps is_pending_def Let_def
  number_defs

text \<open>On dates of the form \<open>YYYY-MM-DD\<close> the string order is the calendar order.\<close>

lemma digits_value_bound:
  "\<forall>d \<in> set ds. is_digit d \<Longrightarrow> digits_value ds < 10 ^ length ds"
proof (induction ds)
  case Nil
  then show ?case by simp
next
  case (Cons d ds)
  then have "d - 48 \<le> 9" and "digits_value ds < 10 ^ length ds"
    by (auto simp: is_digit_def)
  then have "(d - 48) * 10 ^ length ds + digits_value ds < 9 * 10 ^ length ds + 10 ^ length ds"
    by (meson add_le_less_mono mult_le_mono1)
  then show ?case by simp
qed

lemma js_gt_digits:
  assumes "length xs = length ys"
    and "\<forall>d \<in> set xs. is_digit d" and "\<forall>d \<in> set ys. is_digit d"
  shows "js_gt xs ys = (digits_value ys < digits_value xs)
         \<and> (xs = ys) = (digits_value xs = digits_value ys)"
  using assms
proof (induction xs ys rule: list_induct2)
  case Nil
  then show ?case by simp
next
  case (Cons x xs y ys)
  let ?K = "10 ^ length xs :: nat"
  from Cons have IH: "js_gt xs ys = (digits_value ys < digits_value xs)"
    "(xs = ys) = (digits_value xs = digits_value ys)"
    by simp_all
  from Cons.prems have xy: "48 \<le> x" "48 \<le> y"
    by (simp_all add: is_digit_def)
  from Cons.prems Cons.hyps have b: "digits_value xs < ?K" "digits_value ys < ?K"
    using digits_value_bound [of xs] digits_value_bound [of ys] by simp_all
  have lt: "a * ?K + digits_value ys < c * ?K + digits_value xs" if "a < c" for a c
  proof -
    from that have "Suc a * ?K \<le> c * ?K"
      by (intro mult_le_mono1) simp
    with b show ?thesis by simp
  qed
  have lt': "a * ?K + digits_value xs < c * ?K + digits_value ys" if "a < c" for a c
  proof -
    from that have "Suc a * ?K \<le> c * ?K"
      by (intro mult_le_mono1) simp
    with b show ?thesis by simp
  qed
  consider "y < x" | "x = y" | "x < y" by linarith
  then show ?case
  proof cases
    case 1
    with xy have "y - 48 < x - 48" by simp
    from lt [OF this] 1 Cons.hyps show ?thesis by auto
  next
    case 2
    with IH Cons.hyps show ?thesis by simp
  next
    case 3
    with xy have "x - 48 < y - 48" by simp
    from lt' [OF this] 3 Cons.hyps show ?thesis by auto
  qed
qed

lemma js_gt_append:
  "length p = length q \<Longrightarrow> js_gt (p @ s) (q @ t) = (js_gt p q \<or> (p = q \<and> js_gt s t))"
  by (induction p q rule: list_induct2) auto

lemma year_of_iso_date: "length y = 4 \<Longrightarrow> year_of (iso_date y m d) = y"
  by (simp add: year_of_def iso_date_def)

lemma js_gt_iso_date:
  assumes "length y = 4" "length m = 2" "length d = 2"
    and "length y' = 4" "length m' = 2" "length d' = 2"
    and "\<forall>c \<in> set (y @ m @ d @ y' @ m' @ d'). is_digit c"
  shows "js_gt (iso_date y m d) (iso_date y' m' d')
     = (digits_value y' < digits_value y
        \<or> (digits_value y' = digits_value y
            \<and> (digits_value m' < digits_value m
                \<or> (digits_value m' = digits_value m \<and> digits_value d' < digits_value d))))"
proof -
  have y: "js_gt y y' = (digits_value y' < digits_value y)" "(y = y') = (digits_value y = digits_value y')"
    using js_gt_digits [of y y'] assms by simp_all
  have m: "js_gt m m' = (digits_value m' < digits_value m)" "(m = m') = (digits_value m = digits_value m')"
    using js_gt_digits [of m m'] assms by simp_all
  have d: "js_gt d d' = (digits_value d' < digits_value d)"
    using js_gt_digits [of d d'] assms by simp
  have "js_gt (iso_date y m d) (iso_date y' m' d')
      = (js_gt y y' \<or> (y = y' \<and> (js_gt m m' \<or> (m = m' \<and> js_gt d d'))))"
    using assms(1-6) by (simp add: iso_date_def js_gt_append)
  with y m d show ?thesis by auto
qed

lemma matches_iso_date_split:
  assumes "matches_iso_date s"
  shows "s = iso_date (take 4 s) (take 2 (drop 5 s)) (drop 8 s)"
proof -
  from assms have len: "length s = 10" and h: "s ! 4 = 45" "s ! 7 = 45"
    by (simp_all add: matches_iso_date_def)
  have "s = take 4 s @ drop 4 s"
    by simp
  also from len h have "drop 4 s = [45] @ drop 5 s"
    using Cons_nth_drop_Suc [of 4 s] by simp
  also have "drop 5 s = take 2 (drop 5 s) @ drop 7 s"
    using append_take_drop_id [of 2 "drop 5 s"] by simp
  also from len h have "drop 7 s = [45] @ drop 8 s"
    using Cons_nth_drop_Suc [of 7 s] by simp
  finally show ?thesis
    by (simp add: iso_date_def)
qed

lemma iso_date_order:
  assumes "matches_iso_date a" and "matches_iso_date b"
  shows "js_gt a b = date_after a b"
    and "(year_of a = year_of b) = (year_num a = year_num b)"
proof -
  from assms have la: "length (take 4 a) = 4" "length (take 2 (drop 5 a)) = 2" "length (drop 8 a) = 2"
    and lb: "length (take 4 b) = 4" "length (take 2 (drop 5 b)) = 2" "length (drop 8 b) = 2"
    and dg: "\<forall>c \<in> set (take 4 a @ take 2 (drop 5 a) @ drop 8 a
                     @ take 4 b @ take 2 (drop 5 b) @ drop 8 b). is_digit c"
    by (auto simp: matches_iso_date_def list_all_iff)
  from js_gt_iso_date [OF la lb dg]
  show "js_gt a b = date_after a b"
    unfolding matches_iso_date_split [OF assms(1), symmetric]
      matches_iso_date_split [OF assms(2), symmetric]
    by (simp add: date_after_def year_num_def month_num_def day_num_def)
  from dg have "\<forall>d \<in> set (take 4 a). is_digit d" "\<forall>d \<in> set (take 4 b). is_digit d"
    by simp_all
  with js_gt_digits [of "take 4 a" "take 4 b"] la(1) lb(1)
  show "(year_of a = year_of b) = (year_num a = year_num b)"
    by (simp add: year_of_def year_num_def)
qed

lemma year_of_Nil [simp]: "year_of s = [] \<longleftrightarrow> s = []"
  by (simp add: year_of_def)

lemma scanRecords_cases:
  "scanRecords results t records = results
   \<or> (\<exists>record \<in> set records.
         scanRecords results t records
           = results @ [\<lparr>m_transaction = t, m_bankRecord = record, m_matchType = Exact\<rparr>]
         \<and> (\<forall>r \<in> set results. b_id (m_bankRecord r) \<noteq> b_id record)
         \<and> pair_ok t record)"
proof (induction records)
  case Nil
  then show ?case by simp
next
  case (Cons rcd records)
  show ?case
  proof (cases "scanRecords results t (rcd # records) = scanRecords results t records")
    case True
    with Cons show ?thesis by auto
  next
    case False
    then have push: "scanRecords results t (rcd # records)
        = results @ [\<lparr>m_transaction = t, m_bankRecord = rcd, m_matchType = Exact\<rparr>]"
      and fresh: "\<forall>r \<in> set results. b_id (m_bankRecord r) \<noteq> b_id rcd"
      and ok: "pair_ok t rcd"
      by (auto simp: pair_ok_def truthy_def or_empty_def split: if_splits option.splits)
    then show ?thesis by auto
  qed
qed

lemma foldl_scan_inv:
  assumes "\<forall>m \<in> set acc. P m"
    and "\<And>t d. t \<in> set ts \<Longrightarrow> d \<in> set records \<Longrightarrow> pair_ok t d
           \<Longrightarrow> P \<lparr>m_transaction = t, m_bankRecord = d, m_matchType = Exact\<rparr>"
  shows "\<forall>m \<in> set (foldl (\<lambda>results t. scanRecords results t records) acc ts). P m"
  using assms
proof (induction ts arbitrary: acc)
  case Nil
  then show ?case by simp
next
  case (Cons t ts)
  have "\<forall>m \<in> set (scanRecords acc t records). P m"
    using scanRecords_cases [of acc t records] Cons.prems by auto
  then show ?case
    using Cons.IH [of "scanRecords acc t records"] Cons.prems(2) by simp
qed

lemma foldl_scan_records_distinct:
  assumes "distinct (map (\<lambda>m. b_id (m_bankRecord m)) acc)"
  shows "distinct (map (\<lambda>m. b_id (m_bankRecord m))
           (foldl (\<lambda>results t. scanRecords results t records) acc ts))"
  using assms
proof (induction ts arbitrary: acc)
  case Nil
  then show ?case by simp
next
  case (Cons t ts)
  have "distinct (map (\<lambda>m. b_id (m_bankRecord m)) (scanRecords acc t records))"
    using scanRecords_cases [of acc t records] Cons.prems by (elim disjE bexE conjE) (simp, force)
  then show ?case
    using Cons.IH [of "scanRecords acc t records"] by simp
qed

lemma foldl_scan_transactions:
  "\<exists>s \<in> set (subseqs ts).
     map m_transaction (foldl (\<lambda>results t. scanRecords results t records) acc ts)
       = map m_transaction acc @ s"
proof (induction ts arbitrary: acc)
  case Nil
  then show ?case by simp
next
  case (Cons t ts)
  from Cons.IH [of "scanRecords acc t records"] obtain s where
    s: "s \<in> set (subseqs ts)"
       "map m_transaction (foldl (\<lambda>results t. scanRecords results t records)
          (scanRecords acc t records) ts) = map m_transaction (scanRecords acc t records) @ s"
    by blast
  from scanRecords_cases [of acc t records]
  have "map m_transaction (scanRecords acc t records) = map m_transaction acc
        \<or> map m_transaction (scanRecords acc t records) = map m_transaction acc @ [t]"
    by auto
  with s show ?case
    by (auto simp: Let_def)
qed

lemma subseqs_map_mem: "s \<in> set (subseqs xs) \<Longrightarrow> map f s \<in> set (subseqs (map f xs))"
  by (induction xs arbitrary: s) (auto simp: Let_def)

text \<open>
  Claim C2. Every pair of a transaction and a bank record that \<open>performMatching\<close>
  returns has equal amounts; if the transaction has an order date (a string that is
  neither null nor empty, which is what the code tests), the first four code units of
  the order date equal those of the record's date, and the order date is not greater
  than the record's date in the string order; the transaction has a joined client whose
  name is not empty and matches the depositor. So a transaction without a client name
  is in no pair. When both dates have the form \<open>YYYY-MM-DD\<close>, the years are equal as
  numbers and the order date is not after the record's date in the calendar.
\<close>

theorem performMatching_pair_conditions:
  assumes "m \<in> set (performMatching transactions bankRecords)"
  shows "t_amount (m_transaction m) = b_amount (m_bankRecord m)
       \<and> (truthy (t_order_date (m_transaction m))
            \<longrightarrow> year_of (or_empty (t_order_date (m_transaction m)))
                  = year_of (b_transaction_date (m_bankRecord m)))
       \<and> (truthy (t_order_date (m_transaction m))
            \<longrightarrow> \<not> js_gt (or_empty (t_order_date (m_transaction m)))
                       (b_transaction_date (m_bankRecord m)))
       \<and> (\<exists>c. t_clients (m_transaction m) = Some c \<and> c_name c \<noteq> []
              \<and> isNameMatch (c_name c) (or_empty (b_depositor (m_bankRecord m))))
       \<and> (\<forall>orderDate. t_order_date (m_transaction m) = Some orderDate
              \<and> matches_iso_date orderDate
              \<and> matches_iso_date (b_transaction_date (m_bankRecord m))
            \<longrightarrow> year_num orderDate = year_num (b_transaction_date (m_bankRecord m))
                \<and> \<not> date_after orderDate (b_transaction_date (m_bankRecord m)))"
proof -
  have "\<forall>m \<in> set (foldl (\<lambda>results t. scanRecords results t
                       (filter (\<lambda>r. \<not> b_is_matched r) bankRecords)) []
                     (filter is_pending transactions)).
          pair_ok (m_transaction m) (m_bankRecord m)"
    by (rule foldl_scan_inv) simp_all
  with assms have ok: "pair_ok (m_transaction m) (m_bankRecord m)"
    by (simp add: performMatching_def Let_def)
  then have "clientNameOf (m_transaction m) \<noteq> []"
    by (simp add: pair_ok_def)
  then obtain c where c: "t_clients (m_transaction m) = Some c"
      "c_name c = clientNameOf (m_transaction m)"
    by (cases "t_clients (m_transaction m)") (simp_all add: clientNameOf_def)
  have "year_num orderDate = year_num (b_transaction_date (m_bankRecord m))
        \<and> \<not> date_after orderDate (b_transaction_date (m_bankRecord m))"
    if od: "t_order_date (m_transaction m) = Some orderDate"
      and iso: "matches_iso_date orderDate" "matches_iso_date (b_transaction_date (m_bankRecord m))"
    for orderDate
  proof -
    from iso(1) have "orderDate \<noteq> []"
      by (auto simp: matches_iso_date_def)
    with od ok have "year_of orderDate = year_of (b_transaction_date (m_bankRecord m))"
      and "\<not> js_gt orderDate (b_transaction_date (m_bankRecord m))"
      by (simp_all add: pair_ok_def truthy_def or_empty_def)
    with iso_date_order [OF iso] show ?thesis
      by simp
  qed
  with ok c show ?thesis
    by (simp add: pair_ok_def)
qed

theorem performMatching_pair_conditions_witness:
  "performMatching [txA] [recA]
     = [\<lparr>m_transaction = txA, m_bankRecord = recA, m_matchType = Exact\<rparr>]
   \<and> t_amount txA = b_amount recA
   \<and> t_order_date txA = Some (js ''2024-01-01'')
   \<and> year_of (js ''2024-01-01'') = year_of (b_transaction_date recA)
   \<and> \<not> js_gt (js ''2024-01-01'') (b_transaction_date recA)
   \<and> t_clients txA = Some clientABC
   \<and> isNameMatch (c_name clientABC) (or_empty (b_depositor recA))
   \<and> matches_iso_date (js ''2024-01-01'') \<and> matches_iso_date (b_transaction_date recA)
   \<and> year_num (b_transaction_date recA) = 2024
   \<and> \<not> date_after (js ''2024-01-01'') (b_transaction_date recA)"
proof -
  have run: "performMatching [txA] [recA]
       = [\<lparr>m_transaction = txA, m_bankRecord = recA, m_matchType = Exact\<rparr>]"
    by (simp add: single_defs example_defs string_defs)
  then have "\<lparr>m_transaction = txA, m_bankRecord = recA, m_matchType = Exact\<rparr>
       \<in> set (performMatching [txA] [recA])"
    by simp
  from performMatching_pair_conditions [OF this] run show ?thesis
    by (simp add: example_defs string_defs matches_iso_date_def is_digit_def date_after_def
          year_num_def month_num_def day_num_def)
qed

text \<open>
  Claim C3, as amended. No bank-record id appears in two results of one run of
  \<open>performMatching\<close>, whatever the input; no transaction id appears in two results when
  the outstanding transactions of the input have pairwise distinct ids. The loop visits
  every list element once and compares no transaction ids, so a transaction listed twice
  can be paired twice.
\<close>

theorem performMatching_injective:
  "distinct (map (b_id \<circ> m_bankRecord) (performMatching transactions bankRecords))
   \<and> (distinct (map t_id (filter is_pending transactions))
        \<longrightarrow> distinct (map (t_id \<circ> m_transaction) (performMatching transactions bankRecords)))"
proof
  have "distinct (map (\<lambda>m. b_id (m_bankRecord m))
          (foldl (\<lambda>results t. scanRecords results t
                    (filter (\<lambda>r. \<not> b_is_matched r) bankRecords)) []
             (filter is_pending transactions)))"
    by (rule foldl_scan_records_distinct) simp
  then show "distinct (map (b_id \<circ> m_bankRecord) (performMatching transactions bankRecords))"
    by (simp add: performMatching_def Let_def comp_def)
next
  show "distinct (map t_id (filter is_pending transactions))
        \<longrightarrow> distinct (map (t_id \<circ> m_transaction) (performMatching transactions bankRecords))"
  proof
    assume d: "distinct (map t_id (filter is_pending transactions))"
    from foldl_scan_transactions [of "filter is_pending transactions"
        "filter (\<lambda>r. \<not> b_is_matched r) bankRecords" "[]"]
    obtain s where s: "s \<in> set (subseqs (filter is_pending transactions))"
      "map m_transaction (performMatching transactions bankRecords) = s"
      by (auto simp: performMatching_def Let_def)
    from subseqs_map_mem [OF s(1), of t_id] d have "distinct (map t_id s)"
      by (rule subseqs_distinctD)
    with s(2) show "distinct (map (t_id \<circ> m_transaction) (performMatching transactions bankRecords))"
      by (metis map_map)
  qed
qed

theorem performMatching_injective_witness:
  "distinct (map t_id (filter is_pending [txA, txB]))
   \<and> map (t_id \<circ> m_transaction) (performMatching [txA, txB] [recA, recA2]) = [js ''t1'', js ''t2'']
   \<and> map (b_id \<circ> m_bankRecord) (performMatching [txA, txB] [recA, recA2]) = [js ''r1'', js ''r2'']"
  using performMatching_injective [of "[txA, txB]" "[recA, recA2]"]
  by (simp add: single_defs example_defs string_defs)

theorem performMatching_repeated_transaction:
  "map (t_id \<circ> m_transaction) (performMatching [txA, txA] [recA, recA2]) = [t_id txA, t_id txA]
   \<and> \<not> distinct (map (t_id \<circ> m_transaction) (performMatching [txA, txA] [recA, recA2]))"
  by (simp add: single_defs example_defs string_defs)

section \<open>Combination search: soundness and completeness on the first ten\<close>

subsection \<open>Sums of doubles\<close>

lemma round_double_exact: "\<bar>x\<bar> \<le> 2 ^ 53 \<Longrightarrow> round_double x = Fin x"
proof -
  assume "\<bar>x\<bar> \<le> 2 ^ 53"
  then have le: "nat \<bar>x\<bar> \<le> 2 ^ 53"
    by (simp add: nat_le_iff)
  then have v: "round_magnitude (nat \<bar>x\<bar>) = nat \<bar>x\<bar>"
    by (simp add: round_magnitude_def)
  have "(2::nat) ^ 53 < 2 ^ 1024"
    by (rule power_strict_increasing) simp_all
  with le have "\<not> (2::nat) ^ 1024 \<le> nat \<bar>x\<bar>"
    by linarith
  with v show ?thesis
    by (simp add: round_double_def Let_def)
qed

lemma js_add_exact: "\<bar>x + b\<bar> \<le> 2 ^ 53 \<Longrightarrow> js_add (Fin x) b = Fin (x + b)"
  by (simp add: js_add_def round_double_exact)

lemma js_sub_exact: "\<bar>a - y\<bar> \<le> 2 ^ 53 \<Longrightarrow> js_sub a (Fin y) = Fin (a - y)"
  by (simp add: js_sub_def round_double_exact)

lemma sum_amounts_append [simp]: "sum_amounts (xs @ ys) = sum_amounts xs + sum_amounts ys"
  by (simp add: sum_amounts_def)

lemma sum_amounts_Cons [simp]: "sum_amounts (x # xs) = t_amount x + sum_amounts xs"
  by (simp add: sum_amounts_def)

lemma sum_amounts_Nil [simp]: "sum_amounts [] = 0"
  by (simp add: sum_amounts_def)

lemma sum_abs_append [simp]: "sum_abs (xs @ ys) = sum_abs xs + sum_abs ys"
  by (simp add: sum_abs_def)

lemma sum_abs_Cons [simp]: "sum_abs (x # xs) = \<bar>t_amount x\<bar> + sum_abs xs"
  by (simp add: sum_abs_def)

lemma sum_abs_Nil [simp]: "sum_abs [] = 0"
  by (simp add: sum_abs_def)

lemma sum_abs_nonneg: "0 \<le> sum_abs xs"
  by (induction xs) simp_all

lemma abs_sum_amounts_le: "\<bar>sum_amounts xs\<bar> \<le> sum_abs xs"
  by (induction xs) auto

lemma sum_abs_eq_sum_amounts: "\<forall>t \<in> set xs. 0 \<le> t_amount t \<Longrightarrow> sum_abs xs = sum_amounts xs"
  by (induction xs) simp_all

lemma js_sum_Nil [simp]: "js_sum [] = Fin 0"
  by (simp add: js_sum_def)

lemma js_sum_snoc [simp]: "js_sum (xs @ [x]) = js_add (js_sum xs) (t_amount x)"
  by (simp add: js_sum_def)

text \<open>While the magnitudes add up to at most \<open>2 ^ 53\<close>, the accumulated sum is the exact one.\<close>

lemma js_sum_exact: "sum_abs xs \<le> 2 ^ 53 \<Longrightarrow> js_sum xs = Fin (sum_amounts xs)"
proof (induction xs rule: rev_induct)
  case Nil
  then show ?case by simp
next
  case (snoc x xs)
  from snoc.prems have "sum_abs xs \<le> 2 ^ 53"
    by simp
  with snoc.IH have "js_sum xs = Fin (sum_amounts xs)" .
  moreover have "\<bar>sum_amounts xs + t_amount x\<bar> \<le> 2 ^ 53"
    using abs_sum_amounts_le [of "xs @ [x]"] snoc.prems by simp
  ultimately show ?case
    by (simp add: js_add_exact)
qed

lemma sum_amounts_mset: "mset xs = mset ys \<Longrightarrow> sum_amounts xs = sum_amounts ys"
  unfolding sum_amounts_def by (metis mset_map sum_mset_sum_list)

lemma sum_abs_mset: "mset xs = mset ys \<Longrightarrow> sum_abs xs = sum_abs ys"
  unfolding sum_abs_def by (metis mset_map sum_mset_sum_list)

lemma sum_abs_mono: "mset xs \<subseteq># mset ys \<Longrightarrow> sum_abs xs \<le> sum_abs ys"
proof -
  assume "mset xs \<subseteq># mset ys"
  then obtain M where "mset ys = mset xs + M"
    by (auto simp: mset_subset_eq_exists_conv)
  moreover obtain zs where "M = mset zs"
    using ex_mset [of M] by auto
  ultimately have "mset ys = mset (xs @ zs)"
    by simp
  from sum_abs_mset [OF this] sum_abs_nonneg [of zs] show ?thesis
    by simp
qed

subsection \<open>The sorted candidates\<close>

lemma mset_sort_desc [simp]: "mset (sort_desc transactions) = mset transactions"
  by (simp add: sort_desc_def)

lemma set_sort_desc [simp]: "set (sort_desc transactions) = set transactions"
  by (simp add: sort_desc_def)

lemma length_sort_desc [simp]: "length (sort_desc transactions) = length transactions"
  by (simp add: sort_desc_def)

lemma sort_desc_descending:
  "sorted_wrt (\<lambda>a b. t_amount b \<le> t_amount a) (sort_desc transactions)"
proof -
  have "sorted (map (\<lambda>t. - t_amount t) (sort_desc transactions))"
    by (simp add: sort_desc_def)
  then show ?thesis
    by (simp add: sorted_map)
qed

lemma sort_desc_stable:
  "filter (\<lambda>t. t_amount t = k) (sort_desc transactions) = filter (\<lambda>t. t_amount t = k) transactions"
  using sort_key_stable [of "\<lambda>t. - t_amount t" "- k" transactions]
  by (simp add: sort_desc_def)

lemma top_ten_largest:
  "\<forall>u \<in> set (drop 10 (sort_desc transactions)). \<forall>t \<in> set (top_ten transactions).
     t_amount u \<le> t_amount t"
proof -
  have "sorted_wrt (\<lambda>a b. t_amount b \<le> t_amount a)
          (take 10 (sort_desc transactions) @ drop 10 (sort_desc transactions))"
    using sort_desc_descending [of transactions] by simp
  then show ?thesis
    unfolding sorted_wrt_append top_ten_def by blast
qed

subsection \<open>The search\<close>

lemma Nil_in_subseqs: "[] \<in> set (subseqs xs)"
  by (induction xs) (auto simp: Let_def)

lemma subseqs_subset: "s \<in> set (subseqs xs) \<Longrightarrow> set s \<subseteq> set xs"
  by (metis PowD image_eqI subseqs_powset)

lemma subseqs_mset: "s \<in> set (subseqs xs) \<Longrightarrow> mset s \<subseteq># mset xs"
proof (induction xs arbitrary: s)
  case Nil
  then show ?case by simp
next
  case (Cons x xs)
  then consider s' where "s = x # s'" "s' \<in> set (subseqs xs)" | "s \<in> set (subseqs xs)"
    by (auto simp: Let_def)
  then show ?case
  proof cases
    case 1
    with Cons.IH [of s'] show ?thesis by simp
  next
    case 2
    with Cons.IH [of s] show ?thesis
      by (auto simp: subseteq_mset_def intro: le_SucI)
  qed
qed

lemma mset_subseqs:
  "M \<subseteq># mset xs \<Longrightarrow> \<exists>s \<in> set (subseqs xs). mset s = M"
proof (induction xs arbitrary: M)
  case Nil
  then show ?case by simp
next
  case (Cons x xs)
  show ?case
  proof (cases "x \<in># M")
    case True
    with Cons.prems have "M - {#x#} \<subseteq># mset xs"
      by (simp add: insert_subset_eq_iff subset_eq_diff_conv)
    from Cons.IH [OF this] obtain s where "s \<in> set (subseqs xs)" "mset s = M - {#x#}"
      by blast
    with True have "x # s \<in> set (subseqs (x # xs))" "mset (x # s) = M"
      by (auto simp: Let_def)
    then show ?thesis by blast
  next
    case False
    with Cons.prems have "M \<subseteq># mset xs"
      by (metis add_mset_remove_trivial_If diff_single_trivial mset.simps(2) subset_eq_diff_conv
            add_mset_add_single)
    from Cons.IH [OF this] show ?thesis
      by (auto simp: Let_def)
  qed
qed

lemma drop_take_step:
  assumes "index < maxItems" and "maxItems \<le> length xs"
  shows "drop index (take maxItems xs) = xs ! index # drop (Suc index) (take maxItems xs)"
proof -
  from assms have "index < length (take maxItems xs)" by simp
  then have "take maxItems xs ! index # drop (Suc index) (take maxItems xs)
      = drop index (take maxItems xs)"
    by (rule Cons_nth_drop_Suc)
  moreover from assms have "take maxItems xs ! index = xs ! index" by simp
  ultimately show ?thesis by metis
qed

lemma backtrack_hit:
  "currentSum = Fin targetAmount \<and> 2 \<le> length selected
   \<Longrightarrow> backtrack sortedTs maxItems targetAmount index currentSum selected = Some selected"
  by (subst backtrack.simps) simp

lemma backtrack_stop:
  "\<not> (currentSum = Fin targetAmount \<and> 2 \<le> length selected)
   \<Longrightarrow> num_gt currentSum targetAmount \<or> maxItems \<le> index
   \<Longrightarrow> backtrack sortedTs maxItems targetAmount index currentSum selected = None"
  by (subst backtrack.simps) auto

lemma backtrack_step:
  "\<not> (currentSum = Fin targetAmount \<and> 2 \<le> length selected)
   \<Longrightarrow> \<not> (num_gt currentSum targetAmount \<or> maxItems \<le> index)
   \<Longrightarrow> backtrack sortedTs maxItems targetAmount index currentSum selected
       = (case backtrack sortedTs maxItems targetAmount (index + 1)
                 (js_add currentSum (t_amount (sortedTs ! index)))
                 (selected @ [sortedTs ! index]) of
            Some withCurrent \<Rightarrow> Some withCurrent
          | None \<Rightarrow> backtrack sortedTs maxItems targetAmount (index + 1) currentSum selected)"
  by (subst backtrack.simps) auto

text \<open>
  Whatever the amounts: a result extends the selection by a sub-list of the candidates
  not yet visited, has at least two elements, and its accumulated sum is the target.
\<close>

lemma backtrack_sound:
  "backtrack sortedTs maxItems targetAmount index currentSum selected = Some r
   \<Longrightarrow> maxItems \<le> length sortedTs
   \<Longrightarrow> currentSum = js_sum selected
   \<Longrightarrow> \<exists>s \<in> set (subseqs (drop index (take maxItems sortedTs))).
         r = selected @ s \<and> js_sum r = Fin targetAmount \<and> 2 \<le> length r"
proof (induction sortedTs maxItems targetAmount index currentSum selected rule: backtrack.induct)
  case (1 sortedTs maxItems targetAmount index currentSum selected)
  let ?rest = "drop (Suc index) (take maxItems sortedTs)"
  let ?x = "sortedTs ! index"
  show ?case
  proof (cases "currentSum = Fin targetAmount \<and> 2 \<le> length selected")
    case True
    with "1.prems" have "r = selected"
      by (simp add: backtrack_hit)
    with True "1.prems" show ?thesis
      by (auto simp: Nil_in_subseqs)
  next
    case False
    note nohit = this
    show ?thesis
    proof (cases "num_gt currentSum targetAmount \<or> maxItems \<le> index")
      case True
      with nohit "1.prems"(1) show ?thesis
        by (simp add: backtrack_stop)
    next
      case False
      then have step: "drop index (take maxItems sortedTs) = ?x # ?rest"
        using "1.prems"(2) by (simp add: drop_take_step)
      show ?thesis
      proof (cases "backtrack sortedTs maxItems targetAmount (index + 1)
                      (js_add currentSum (t_amount ?x)) (selected @ [?x])")
        case None
        with "1.prems"(1) have
          "backtrack sortedTs maxItems targetAmount (index + 1) currentSum selected = Some r"
          by (simp add: backtrack_step [OF nohit False])
        from "1.IH"(2) [OF nohit False None this "1.prems"(2,3)]
        obtain s where "s \<in> set (subseqs ?rest)" "r = selected @ s"
          "js_sum r = Fin targetAmount" "2 \<le> length r"
          by auto
        with step show ?thesis
          by (auto simp: Let_def)
      next
        case (Some withCurrent)
        with "1.prems"(1) have r: "withCurrent = r"
          by (simp add: backtrack_step [OF nohit False])
        have "js_add currentSum (t_amount ?x) = js_sum (selected @ [?x])"
          using "1.prems"(3) by simp
        from "1.IH"(1) [OF nohit False Some [unfolded r] "1.prems"(2) this]
        obtain s where "s \<in> set (subseqs ?rest)" "r = (selected @ [?x]) @ s"
          "js_sum r = Fin targetAmount" "2 \<le> length r"
          by auto
        then have "?x # s \<in> set (subseqs (?x # ?rest))" "r = selected @ (?x # s)"
          by (auto simp: Let_def)
        with step \<open>js_sum r = Fin targetAmount\<close> \<open>2 \<le> length r\<close> show ?thesis
          by metis
      qed
    qed
  qed
qed

lemma sum_amounts_nonneg: "\<forall>t \<in> set xs. 0 \<le> t_amount t \<Longrightarrow> 0 \<le> sum_amounts xs"
  by (induction xs) auto

text \<open>
  With amounts that are not negative and add up to at most \<open>2 ^ 53\<close>, every sum the
  search computes is exact, and the search finds a combination whenever one exists
  among the candidates not yet visited.
\<close>

lemma backtrack_complete:
  "s \<in> set (subseqs (drop index (take maxItems sortedTs)))
   \<Longrightarrow> maxItems \<le> length sortedTs
   \<Longrightarrow> \<forall>t \<in> set sortedTs. 0 \<le> t_amount t
   \<Longrightarrow> currentSum = Fin (sum_amounts selected)
   \<Longrightarrow> 0 \<le> sum_amounts selected
   \<Longrightarrow> sum_amounts selected + sum_amounts (drop index (take maxItems sortedTs)) \<le> 2 ^ 53
   \<Longrightarrow> sum_amounts selected + sum_amounts s = targetAmount
   \<Longrightarrow> 2 \<le> length selected + length s
   \<Longrightarrow> \<exists>r. backtrack sortedTs maxItems targetAmount index currentSum selected = Some r"
proof (induction sortedTs maxItems targetAmount index currentSum selected arbitrary: s
       rule: backtrack.induct)
  case (1 sortedTs maxItems targetAmount index currentSum selected)
  let ?rest = "drop (Suc index) (take maxItems sortedTs)"
  let ?x = "sortedTs ! index"
  note cur = "1.prems"(4)
  show ?case
  proof (cases "currentSum = Fin targetAmount \<and> 2 \<le> length selected")
    case True
    then show ?thesis
      by (simp add: backtrack_hit)
  next
    case False
    note nohit = this
    have "set s \<subseteq> set sortedTs"
      using subseqs_subset [OF "1.prems"(1)] set_drop_subset set_take_subset by fast
    with "1.prems"(3) have "0 \<le> sum_amounts s"
      by (auto intro: sum_amounts_nonneg)
    with "1.prems"(7) cur have le: "\<not> num_gt currentSum targetAmount"
      by (simp add: num_gt_def)
    have lt: "index < maxItems"
    proof (rule ccontr)
      assume "\<not> index < maxItems"
      with "1.prems"(1) have "s = []" by simp
      with "1.prems"(7,8) cur nohit show False by simp
    qed
    with le have cont: "\<not> (num_gt currentSum targetAmount \<or> maxItems \<le> index)" by simp
    from lt "1.prems"(2) have step: "drop index (take maxItems sortedTs) = ?x # ?rest"
      by (simp add: drop_take_step)
    have x0: "0 \<le> t_amount ?x"
      using "1.prems"(2,3) lt by simp
    have "set ?rest \<subseteq> set sortedTs"
      using set_drop_subset set_take_subset by fast
    with "1.prems"(3) have rest0: "0 \<le> sum_amounts ?rest"
      by (auto intro: sum_amounts_nonneg)
    from "1.prems"(6) step have bound:
      "sum_amounts selected + t_amount ?x + sum_amounts ?rest \<le> 2 ^ 53"
      by simp
    with "1.prems"(5) x0 rest0 have "\<bar>sum_amounts selected + t_amount ?x\<bar> \<le> 2 ^ 53"
      by simp
    with cur have add: "js_add currentSum (t_amount ?x) = Fin (sum_amounts (selected @ [?x]))"
      by (simp add: js_add_exact)
    show ?thesis
    proof (cases "backtrack sortedTs maxItems targetAmount (index + 1)
                    (js_add currentSum (t_amount ?x)) (selected @ [?x])")
      case (Some withCurrent)
      then show ?thesis
        by (simp add: backtrack_step [OF nohit cont])
    next
      case None
      from "1.prems"(1) step
      consider (incl) s' where "s = ?x # s'" "s' \<in> set (subseqs ?rest)"
        | (excl) "s \<in> set (subseqs ?rest)"
        by (auto simp: Let_def)
      then show ?thesis
      proof cases
        case incl
        have "\<exists>r. backtrack sortedTs maxItems targetAmount (index + 1)
                 (js_add currentSum (t_amount ?x)) (selected @ [?x]) = Some r"
        proof (rule "1.IH"(1) [OF nohit cont _ "1.prems"(2,3) add, of s'])
          show "s' \<in> set (subseqs (drop (index + 1) (take maxItems sortedTs)))"
            using incl(2) by simp
          show "0 \<le> sum_amounts (selected @ [?x])"
            using "1.prems"(5) x0 by simp
          show "sum_amounts (selected @ [?x])
                  + sum_amounts (drop (index + 1) (take maxItems sortedTs)) \<le> 2 ^ 53"
            using bound by simp
          show "sum_amounts (selected @ [?x]) + sum_amounts s' = targetAmount"
            using "1.prems"(7) incl(1) by simp
          show "2 \<le> length (selected @ [?x]) + length s'"
            using "1.prems"(8) incl(1) by simp
        qed
        with None show ?thesis by simp
      next
        case excl
        have "\<exists>r. backtrack sortedTs maxItems targetAmount (index + 1) currentSum selected = Some r"
        proof (rule "1.IH"(2) [OF nohit cont None _ "1.prems"(2,3) cur "1.prems"(5) _
              "1.prems"(7,8)])
          show "s \<in> set (subseqs (drop (index + 1) (take maxItems sortedTs)))"
            using excl by simp
          show "sum_amounts selected + sum_amounts (drop (index + 1) (take maxItems sortedTs))
                  \<le> 2 ^ 53"
            using bound x0 by simp
        qed
        with None show ?thesis
          by (simp add: backtrack_step [OF nohit cont])
      qed
    qed
  qed
qed

lemma findMatchingCombination_unfold:
  "findMatchingCombination transactions targetAmount
     = backtrack (sort_desc transactions) (min (length (sort_desc transactions)) 10)
         targetAmount 0 (Fin 0) []"
  by (simp add: findMatchingCombination_def Let_def)

lemma take_maxItems:
  "take (min (length (sort_desc transactions)) 10) (sort_desc transactions)
     = top_ten transactions"
  by (simp add: top_ten_def min_def)

lemma findMatchingCombination_sound:
  assumes "findMatchingCombination transactions targetAmount = Some r"
  shows "r \<in> set (subseqs (top_ten transactions)) \<and> 2 \<le> length r
         \<and> js_sum r = Fin targetAmount"
proof -
  let ?sorted = "sort_desc transactions"
  let ?n = "min (length ?sorted) 10"
  from assms have "backtrack ?sorted ?n targetAmount 0 (Fin 0) [] = Some r"
    by (simp only: findMatchingCombination_unfold)
  moreover have "?n \<le> length ?sorted" by simp
  moreover have "Fin 0 = js_sum []" by simp
  ultimately have "\<exists>s \<in> set (subseqs (drop 0 (take ?n ?sorted))).
      r = [] @ s \<and> js_sum r = Fin targetAmount \<and> 2 \<le> length r"
    by (rule backtrack_sound)
  then show ?thesis
    by (simp only: take_maxItems) simp
qed

lemma findMatchingCombination_complete:
  assumes "\<forall>t \<in> set transactions. 0 \<le> t_amount t"
    and "sum_amounts (top_ten transactions) \<le> 2 ^ 53"
    and "s \<in> set (subseqs (top_ten transactions))"
    and "2 \<le> length s" and "sum_amounts s = targetAmount"
  shows "\<exists>r. findMatchingCombination transactions targetAmount = Some r"
proof -
  let ?sorted = "sort_desc transactions"
  let ?n = "min (length ?sorted) 10"
  have "s \<in> set (subseqs (drop 0 (take ?n ?sorted)))"
    using assms(3) by (simp only: take_maxItems drop_0)
  moreover have "?n \<le> length ?sorted" by simp
  moreover have "\<forall>t \<in> set ?sorted. 0 \<le> t_amount t"
    using assms(1) by simp
  moreover have "Fin 0 = Fin (sum_amounts [])" "0 \<le> sum_amounts ([] :: transaction list)"
    by simp_all
  moreover have "sum_amounts [] + sum_amounts (drop 0 (take ?n ?sorted)) \<le> 2 ^ 53"
    using assms(2) by (simp only: take_maxItems drop_0) simp
  moreover have "sum_amounts [] + sum_amounts s = targetAmount"
      "2 \<le> length ([] :: transaction list) + length s"
    using assms(4,5) by simp_all
  ultimately have "\<exists>r. backtrack ?sorted ?n targetAmount 0 (Fin 0) [] = Some r"
    by (rule backtrack_complete)
  then show ?thesis
    by (simp only: findMatchingCombination_unfold)
qed

text \<open>Under the same bound the accumulated sum of a sub-list of the candidates is exact.\<close>

lemma top_ten_sub_exact:
  assumes "\<forall>t \<in> set transactions. 0 \<le> t_amount t"
    and "sum_amounts (top_ten transactions) \<le> 2 ^ 53"
    and "r \<in> set (subseqs (top_ten transactions))"
  shows "js_sum r = Fin (sum_amounts r)"
proof -
  have "set (top_ten transactions) \<subseteq> set transactions"
    using set_take_subset [of 10 "sort_desc transactions"] by (simp add: top_ten_def)
  with assms(1) have "sum_abs (top_ten transactions) = sum_amounts (top_ten transactions)"
    by (intro sum_abs_eq_sum_amounts) blast
  moreover from assms(3) have "sum_abs r \<le> sum_abs (top_ten transactions)"
    by (intro sum_abs_mono subseqs_mset)
  ultimately have "sum_abs r \<le> 2 ^ 53"
    using assms(2) by simp
  then show ?thesis
    by (rule js_sum_exact)
qed

lemma top_ten_short: "length transactions \<le> 10 \<Longrightarrow> top_ten transactions = sort_desc transactions"
  by (simp add: top_ten_def)

lemma subset_top_ten_short:
  assumes "length transactions \<le> 10"
  shows "(\<exists>s \<in> set (subseqs (top_ten transactions)). 2 \<le> length s \<and> sum_amounts s = targetAmount)
     \<longleftrightarrow> (\<exists>s. mset s \<subseteq># mset transactions \<and> 2 \<le> length s \<and> sum_amounts s = targetAmount)"
proof
  assume "\<exists>s \<in> set (subseqs (top_ten transactions)). 2 \<le> length s \<and> sum_amounts s = targetAmount"
  then obtain s where s: "s \<in> set (subseqs (sort_desc transactions))" "2 \<le> length s"
      "sum_amounts s = targetAmount"
    using assms by (auto simp: top_ten_short)
  from subseqs_mset [OF s(1)] have "mset s \<subseteq># mset transactions"
    by simp
  with s show "\<exists>s. mset s \<subseteq># mset transactions \<and> 2 \<le> length s \<and> sum_amounts s = targetAmount"
    by blast
next
  assume "\<exists>s. mset s \<subseteq># mset transactions \<and> 2 \<le> length s \<and> sum_amounts s = targetAmount"
  then obtain s where s: "mset s \<subseteq># mset transactions" "2 \<le> length s"
      "sum_amounts s = targetAmount"
    by blast
  then have "mset s \<subseteq># mset (sort_desc transactions)"
    by simp
  from mset_subseqs [OF this] obtain s' where
    s': "s' \<in> set (subseqs (sort_desc transactions))" "mset s' = mset s"
    by blast
  from s'(2) have "length s' = length s" by (rule mset_eq_length)
  with s s' sum_amounts_mset [OF s'(2)]
  have "s' \<in> set (subseqs (top_ten transactions))" "2 \<le> length s'" "sum_amounts s' = targetAmount"
    using assms by (simp_all add: top_ten_short)
  then show "\<exists>s \<in> set (subseqs (top_ten transactions)). 2 \<le> length s \<and> sum_amounts s = targetAmount"
    by blast
qed

text \<open>
  Claim C1, as amended. The candidates are searched in the order of the stable sort on
  the amount, largest first: the sorted list is a permutation of the candidates, its
  amounts never increase, candidates of equal amount keep their input order, and no
  candidate after the tenth has a larger amount than one of the first ten. For
  candidates with positive amounts whose ten largest add up to at most \<open>2 ^ 53\<close> and a
  positive target, \<open>findMatchingCombination\<close> returns a result exactly when some sub-list
  of at least two of those ten has the target as the sum of its amounts. Every result
  is such a sub-list, so it consists of candidates, has at least two elements and sums
  to the target. With at most ten candidates the search is complete: it returns a
  result exactly when some selection of at least two candidates sums to the target.
  With eleven candidates whose only solution needs the eleventh, it returns nothing
  (the instance below).
\<close>

theorem findMatchingCombination_iff:
  assumes "\<forall>t \<in> set transactions. 0 < t_amount t" and "0 < targetAmount"
    and "sum_amounts (top_ten transactions) \<le> 2 ^ 53"
  shows "mset (sort_desc transactions) = mset transactions
       \<and> sorted_wrt (\<lambda>a b. t_amount b \<le> t_amount a) (sort_desc transactions)
       \<and> (\<forall>k. filter (\<lambda>t. t_amount t = k) (sort_desc transactions)
                = filter (\<lambda>t. t_amount t = k) transactions)
       \<and> top_ten transactions = take 10 (sort_desc transactions)
       \<and> (\<forall>u \<in> set (drop 10 (sort_desc transactions)). \<forall>t \<in> set (top_ten transactions).
             t_amount u \<le> t_amount t)
       \<and> ((\<exists>r. findMatchingCombination transactions targetAmount = Some r)
            \<longleftrightarrow> (\<exists>s \<in> set (subseqs (top_ten transactions)).
                    2 \<le> length s \<and> sum_amounts s = targetAmount))
       \<and> (\<forall>r. findMatchingCombination transactions targetAmount = Some r
              \<longrightarrow> r \<in> set (subseqs (top_ten transactions)) \<and> mset r \<subseteq># mset transactions
                  \<and> 2 \<le> length r \<and> sum_amounts r = targetAmount)
       \<and> (length transactions \<le> 10
            \<longrightarrow> ((\<exists>r. findMatchingCombination transactions targetAmount = Some r)
                   \<longleftrightarrow> (\<exists>s. mset s \<subseteq># mset transactions \<and> 2 \<le> length s
                             \<and> sum_amounts s = targetAmount)))"
proof -
  from assms(1) have nonneg: "\<forall>t \<in> set transactions. 0 \<le> t_amount t"
    by (simp add: less_imp_le)
  have sound: "r \<in> set (subseqs (top_ten transactions)) \<and> 2 \<le> length r
      \<and> sum_amounts r = targetAmount"
    if "findMatchingCombination transactions targetAmount = Some r" for r
  proof -
    from findMatchingCombination_sound [OF that]
    have r: "r \<in> set (subseqs (top_ten transactions))" "2 \<le> length r"
      "js_sum r = Fin targetAmount"
      by simp_all
    from top_ten_sub_exact [OF nonneg assms(3) r(1)] r(3) have "sum_amounts r = targetAmount"
      by simp
    with r show ?thesis by simp
  qed
  have iff: "(\<exists>r. findMatchingCombination transactions targetAmount = Some r)
            \<longleftrightarrow> (\<exists>s \<in> set (subseqs (top_ten transactions)).
                    2 \<le> length s \<and> sum_amounts s = targetAmount)"
    using sound findMatchingCombination_complete [OF nonneg assms(3)]
    by blast
  have sub: "mset r \<subseteq># mset transactions" if "r \<in> set (subseqs (top_ten transactions))" for r
  proof -
    from subseqs_mset [OF that] have "mset r \<subseteq># mset (take 10 (sort_desc transactions))"
      by (simp add: top_ten_def)
    also have "\<dots> \<subseteq># mset (sort_desc transactions)"
      by (metis append_take_drop_id mset_append mset_subset_eq_add_left)
    also have "\<dots> = mset transactions"
      by simp
    finally show ?thesis .
  qed
  have order: "mset (sort_desc transactions) = mset transactions"
    "sorted_wrt (\<lambda>a b. t_amount b \<le> t_amount a) (sort_desc transactions)"
    "\<forall>k. filter (\<lambda>t. t_amount t = k) (sort_desc transactions)
                = filter (\<lambda>t. t_amount t = k) transactions"
    "top_ten transactions = take 10 (sort_desc transactions)"
    "\<forall>u \<in> set (drop 10 (sort_desc transactions)). \<forall>t \<in> set (top_ten transactions).
             t_amount u \<le> t_amount t"
    using sort_desc_descending sort_desc_stable top_ten_largest
    by (simp_all add: top_ten_def)
  from iff sub sound subset_top_ten_short order show ?thesis
    by (intro conjI allI impI) blast+
qed

theorem findMatchingCombination_iff_witness:
  "map t_amount eleven = [100, 100, 100, 100, 100, 100, 100, 100, 100, 100, 1]
   \<and> (0 :: int) < 101
   \<and> sum_amounts (top_ten eleven) = 1000
   \<and> sum_amounts [eleven ! 0, eleven ! 10] = 101
   \<and> findMatchingCombination eleven 101 = None
   \<and> map t_id (top_ten eleven)
       = [js ''e1'', js ''e2'', js ''e3'', js ''e4'', js ''e5'',
          js ''e6'', js ''e7'', js ''e8'', js ''e9'', js ''e10'']
   \<and> \<not> (\<exists>s \<in> set (subseqs (top_ten eleven)). 2 \<le> length s \<and> sum_amounts s = 101)
   \<and> (\<exists>r. findMatchingCombination eleven 200 = Some r)
   \<and> (\<exists>s \<in> set (subseqs (top_ten eleven)). 2 \<le> length s \<and> sum_amounts s = 200)"
proof -
  have pos: "\<forall>t \<in> set eleven. 0 < t_amount t"
    by (simp add: eleven_def mkTransaction_def)
  have found: "\<exists>r. findMatchingCombination eleven 200 = Some r"
    by (simp add: findMatchingCombination_def sort_desc_def eleven_def mkTransaction_def
          backtrack.simps number_defs)
  have none: "findMatchingCombination eleven 101 = None"
    by (simp add: findMatchingCombination_def sort_desc_def eleven_def mkTransaction_def
          backtrack.simps number_defs)
  have top: "map t_id (top_ten eleven)
       = [js ''e1'', js ''e2'', js ''e3'', js ''e4'', js ''e5'',
          js ''e6'', js ''e7'', js ''e8'', js ''e9'', js ''e10'']"
    by (simp add: top_ten_def sort_desc_def eleven_def mkTransaction_def)
  have rest: "map t_amount eleven = [100, 100, 100, 100, 100, 100, 100, 100, 100, 100, 1]"
    "sum_amounts [eleven ! 0, eleven ! 10] = 101"
    by (simp_all add: eleven_def mkTransaction_def sum_amounts_def)
  have total: "sum_amounts (top_ten eleven) = 1000"
    by (simp add: top_ten_def sort_desc_def eleven_def mkTransaction_def sum_amounts_def)
  then have bound: "sum_amounts (top_ten eleven) \<le> 2 ^ 53"
    by simp
  have targets: "(0::int) < 200" "(0::int) < 101"
    by simp_all
  from findMatchingCombination_iff [OF pos targets(1) bound] found
  have two: "\<exists>s \<in> set (subseqs (top_ten eleven)). 2 \<le> length s \<and> sum_amounts s = 200"
    by blast
  from findMatchingCombination_iff [OF pos targets(2) bound] none
  have "\<not> (\<exists>s \<in> set (subseqs (top_ten eleven)). 2 \<le> length s \<and> sum_amounts s = 101)"
    by (metis option.distinct(1))
  with two found none top rest total show ?thesis
    by simp
qed

theorem findMatchingCombination_rounded_sum:
  "t_amount txBig = 2 ^ 53 \<and> t_amount txOne = 1
   \<and> findMatchingCombination [txBig, txOne] (2 ^ 53) = Some [txBig, txOne]
   \<and> sum_amounts [txBig, txOne] = 2 ^ 53 + 1
   \<and> sum_amounts [txBig, txOne] \<noteq> 2 ^ 53"
  by (simp add: findMatchingCombination_def sort_desc_def backtrack.simps number_defs
        bit_length.simps example_defs sum_amounts_def)

section \<open>Group matching: shape of the results, no reuse, display name\<close>

lemma map_push_inv:
  assumes "\<forall>(k', v) \<in> set m. \<forall>t' \<in> set v. P k' t'" and "P k t"
  shows "\<forall>(k', v) \<in> set (map_push m k t). \<forall>t' \<in> set v. P k' t'"
  using assms by (induction m k t rule: map_push.induct) auto

lemma group_step_inv:
  assumes "\<forall>(k, v) \<in> set m. \<forall>t' \<in> set v. group_ok pendingTransactions k t'"
    and "t \<in> set pendingTransactions"
  shows "\<forall>(k, v) \<in> set (group_step m t). \<forall>t' \<in> set v. group_ok pendingTransactions k t'"
proof (cases "getParentClientId t")
  case None
  with assms(1) show ?thesis by (simp add: group_step_def)
next
  case (Some parentId)
  show ?thesis
  proof (cases "parentId = []")
    case True
    with Some assms(1) show ?thesis by (simp add: group_step_def)
  next
    case False
    with Some assms(2) have "group_ok pendingTransactions parentId t"
      by (simp add: group_ok_def)
    from map_push_inv [of m "group_ok pendingTransactions", OF assms(1) this] Some False
    show ?thesis by (simp add: group_step_def)
  qed
qed

lemma foldl_group_step_inv:
  assumes "\<forall>(k, v) \<in> set m. \<forall>t' \<in> set v. group_ok pendingTransactions k t'"
    and "set ts \<subseteq> set pendingTransactions"
  shows "\<forall>(k, v) \<in> set (foldl group_step m ts). \<forall>t' \<in> set v. group_ok pendingTransactions k t'"
  using assms
proof (induction ts arbitrary: m)
  case Nil
  then show ?case by simp
next
  case (Cons t ts)
  from Cons.prems have "\<forall>(k, v) \<in> set (group_step m t). \<forall>t' \<in> set v. group_ok pendingTransactions k t'"
    by (intro group_step_inv) simp_all
  from Cons.IH [OF this] Cons.prems(2) show ?case by simp
qed

lemma transactionsByClient_inv:
  "(parentId, clientTransactions) \<in> set (transactionsByClient pendingTransactions)
   \<Longrightarrow> t \<in> set clientTransactions \<Longrightarrow> group_ok pendingTransactions parentId t"
  using foldl_group_step_inv [of "[]" pendingTransactions pendingTransactions]
  by (auto simp: transactionsByClient_def)

lemma tryGroups_cases:
  "tryGroups transactions results rcd groups = results
   \<or> (\<exists>g. tryGroups transactions results rcd groups = results @ [g]
          \<and> new_group transactions groups results rcd g)"
proof (induction groups)
  case Nil
  then show ?case by simp
next
  case (Cons grp groups)
  obtain parentId clientTransactions where grp: "grp = (parentId, clientTransactions)"
    by (cases grp)
  let ?avail = "filter (\<lambda>t. \<not> used_in results t) clientTransactions"
  have weaken: "new_group transactions (grp # groups) results rcd g"
    if "new_group transactions groups results rcd g" for g
    using that unfolding new_group_def by (elim exE conjE) (intro exI conjI, auto)
  show ?case
  proof (cases "tryGroups transactions results rcd (grp # groups)
                  = tryGroups transactions results rcd groups")
    case True
    with Cons weaken show ?thesis by metis
  next
    case False
    then obtain first second rest comb where
      avail: "?avail = first # second # rest"
      and nm: "isNameMatch (displayNameOf transactions first) (or_empty (b_depositor rcd))"
      and comb: "findMatchingCombination ?avail (b_amount rcd) = Some comb"
      and len: "2 \<le> length comb"
      and res: "tryGroups transactions results rcd (grp # groups)
           = results @ [\<lparr>g_transactions = comb, g_bankRecord = rcd,
                          g_clientName = displayNameOf transactions first,
                          g_totalAmount = b_amount rcd\<rparr>]"
      unfolding grp
      by (auto simp: Let_def split: list.splits option.splits if_splits)
    from findMatchingCombination_sound [OF comb]
    have "comb \<in> set (subseqs (top_ten ?avail))" and sum: "js_sum comb = Fin (b_amount rcd)"
      by simp_all
    then have "set comb \<subseteq> set (top_ten ?avail)"
      by (simp add: subseqs_subset)
    also have "\<dots> \<subseteq> set ?avail"
      by (metis top_ten_def sort_desc_def set_take_subset set_sort)
    finally have sub: "set comb \<subseteq> set (first # second # rest)"
      by (simp only: avail)
    have "new_group transactions (grp # groups) results rcd
            \<lparr>g_transactions = comb, g_bankRecord = rcd,
              g_clientName = displayNameOf transactions first,
              g_totalAmount = b_amount rcd\<rparr>"
      unfolding new_group_def grp
      using avail nm sub len sum
      by (intro exI [of _ parentId] exI [of _ clientTransactions] exI [of _ first]
            exI [of _ "second # rest"]) simp
    with res show ?thesis by blast
  qed
qed

lemma record_step_cases:
  "record_step transactions groups results rcd = results
   \<or> (\<exists>g. record_step transactions groups results rcd = results @ [g]
          \<and> (\<forall>r \<in> set results. b_id (g_bankRecord r) \<noteq> b_id rcd)
          \<and> new_group transactions groups results rcd g)"
  using tryGroups_cases [of transactions results rcd groups]
  by (auto simp: record_step_def)

lemma foldl_record_step_inv:
  assumes "I acc"
    and "\<And>results rcd g. I results \<Longrightarrow> rcd \<in> set records
           \<Longrightarrow> \<forall>r \<in> set results. b_id (g_bankRecord r) \<noteq> b_id rcd
           \<Longrightarrow> new_group transactions groups results rcd g \<Longrightarrow> I (results @ [g])"
  shows "I (foldl (record_step transactions groups) acc records)"
  using assms
proof (induction records arbitrary: acc)
  case Nil
  then show ?case by simp
next
  case (Cons rcd records)
  have "I (record_step transactions groups acc rcd)"
    using record_step_cases [of transactions groups acc rcd] Cons.prems(1)
      Cons.prems(2) [of acc rcd]
    by auto
  then have "I (foldl (record_step transactions groups)
                (record_step transactions groups acc rcd) records)"
  proof (rule Cons.IH)
    fix results r g
    assume "I results" "r \<in> set records"
      "\<forall>m \<in> set results. b_id (g_bankRecord m) \<noteq> b_id r"
      "new_group transactions groups results r g"
    then show "I (results @ [g])"
      using Cons.prems(2) [of results r g] by simp
  qed
  then show ?case by simp
qed

lemma new_group_facts:
  assumes "new_group transactions (transactionsByClient pendingTransactions) results rcd g"
  shows "g_bankRecord g = rcd"
    and "2 \<le> length (g_transactions g)"
    and "js_sum (g_transactions g) = Fin (b_amount rcd)"
    and "g_totalAmount g = b_amount rcd"
    and "\<exists>parentId. parentId \<noteq> [] \<and> (\<forall>t \<in> set (g_transactions g). getParentClientId t = Some parentId)"
    and "set (g_transactions g) \<subseteq> set pendingTransactions"
    and "\<forall>t \<in> set (g_transactions g). \<not> used_in results t"
    and "\<exists>first \<in> set pendingTransactions.
           g_clientName g = displayNameOf transactions first
           \<and> isNameMatch (g_clientName g) (or_empty (b_depositor rcd))
           \<and> (\<forall>t \<in> set (g_transactions g). getParentClientId t = getParentClientId first)"
proof -
  from assms obtain parentId clientTransactions first rest where
    grp: "(parentId, clientTransactions) \<in> set (transactionsByClient pendingTransactions)"
    and avail: "filter (\<lambda>t. \<not> used_in results t) clientTransactions = first # rest"
    and nm: "isNameMatch (displayNameOf transactions first) (or_empty (b_depositor rcd))"
    and sub: "set (g_transactions g) \<subseteq> set (first # rest)"
    and rest: "2 \<le> length (g_transactions g)" "js_sum (g_transactions g) = Fin (b_amount rcd)"
      "g_bankRecord g = rcd" "g_clientName g = displayNameOf transactions first"
      "g_totalAmount g = b_amount rcd"
    unfolding new_group_def by blast
  from rest show "g_bankRecord g = rcd" "2 \<le> length (g_transactions g)"
    "js_sum (g_transactions g) = Fin (b_amount rcd)" "g_totalAmount g = b_amount rcd"
    by simp_all
  have mem: "t \<in> set clientTransactions \<and> \<not> used_in results t" if "t \<in> set (first # rest)" for t
    using that unfolding avail [symmetric] by simp
  have ok: "group_ok pendingTransactions parentId t" if "t \<in> set (first # rest)" for t
    using transactionsByClient_inv [OF grp] mem [OF that] by simp
  show "\<exists>parentId. parentId \<noteq> [] \<and> (\<forall>t \<in> set (g_transactions g). getParentClientId t = Some parentId)"
  proof (intro exI conjI ballI)
    show "parentId \<noteq> []"
      using ok [of first] by (simp add: group_ok_def)
    fix t assume "t \<in> set (g_transactions g)"
    with sub ok [of t] show "getParentClientId t = Some parentId"
      by (auto simp: group_ok_def)
  qed
  show "set (g_transactions g) \<subseteq> set pendingTransactions"
    using sub ok by (auto simp: group_ok_def)
  show "\<forall>t \<in> set (g_transactions g). \<not> used_in results t"
    using sub mem by blast
  show "\<exists>first \<in> set pendingTransactions.
           g_clientName g = displayNameOf transactions first
           \<and> isNameMatch (g_clientName g) (or_empty (b_depositor rcd))
           \<and> (\<forall>t \<in> set (g_transactions g). getParentClientId t = getParentClientId first)"
  proof (intro bexI [of _ first] conjI ballI)
    show "first \<in> set pendingTransactions"
      using ok [of first] by (simp add: group_ok_def)
    show "g_clientName g = displayNameOf transactions first" by (rule rest(4))
    show "isNameMatch (g_clientName g) (or_empty (b_depositor rcd))"
      using nm rest(4) by simp
    fix t assume "t \<in> set (g_transactions g)"
    with sub have "t \<in> set (first # rest)" by blast
    from ok [OF this] ok [of first]
    show "getParentClientId t = getParentClientId first"
      by (simp add: group_ok_def)
  qed
qed

lemma performGroupMatching_unfold:
  "performGroupMatching transactions bankRecords usedRecordIds usedTransactionIds
     = foldl (record_step transactions
               (transactionsByClient
                 (filter (\<lambda>t. is_pending t \<and> t_id t \<notin> usedTransactionIds) transactions))) []
         (filter (\<lambda>r. \<not> b_is_matched r \<and> b_id r \<notin> usedRecordIds) bankRecords)"
  by (simp add: performGroupMatching_def Let_def)

lemma performGroupMatching_inv:
  assumes "I []"
    and "\<And>results rcd g. I results
           \<Longrightarrow> rcd \<in> set bankRecords \<Longrightarrow> \<not> b_is_matched rcd \<Longrightarrow> b_id rcd \<notin> usedRecordIds
           \<Longrightarrow> \<forall>r \<in> set results. b_id (g_bankRecord r) \<noteq> b_id rcd
           \<Longrightarrow> new_group transactions
                 (transactionsByClient
                   (filter (\<lambda>t. is_pending t \<and> t_id t \<notin> usedTransactionIds) transactions))
                 results rcd g
           \<Longrightarrow> I (results @ [g])"
  shows "I (performGroupMatching transactions bankRecords usedRecordIds usedTransactionIds)"
  unfolding performGroupMatching_unfold
proof (rule foldl_record_step_inv [where I = I, OF assms(1)])
  fix results rcd g
  assume "I results"
    "rcd \<in> set (filter (\<lambda>r. \<not> b_is_matched r \<and> b_id r \<notin> usedRecordIds) bankRecords)"
    "\<forall>r \<in> set results. b_id (g_bankRecord r) \<noteq> b_id rcd"
    "new_group transactions
       (transactionsByClient
         (filter (\<lambda>t. is_pending t \<and> t_id t \<notin> usedTransactionIds) transactions))
       results rcd g"
  then show "I (results @ [g])"
    using assms(2) [of results rcd g] by simp
qed

lemma group_records_distinct:
  "distinct (map (\<lambda>g. b_id (g_bankRecord g))
     (performGroupMatching transactions bankRecords usedRecordIds usedTransactionIds))"
proof (rule performGroupMatching_inv)
  show "distinct (map (\<lambda>g. b_id (g_bankRecord g)) [])" by simp
next
  fix results rcd g
  assume "distinct (map (\<lambda>g. b_id (g_bankRecord g)) results)"
    and "\<forall>r \<in> set results. b_id (g_bankRecord r) \<noteq> b_id rcd"
    and "new_group transactions
       (transactionsByClient
         (filter (\<lambda>t. is_pending t \<and> t_id t \<notin> usedTransactionIds) transactions))
       results rcd g"
  moreover from this(3) have "g_bankRecord g = rcd" by (rule new_group_facts(1))
  ultimately show "distinct (map (\<lambda>g. b_id (g_bankRecord g)) (results @ [g]))"
    by auto
qed

lemma group_shape_all:
  "\<forall>g \<in> set (performGroupMatching transactions bankRecords usedRecordIds usedTransactionIds).
     group_shape g"
proof (rule performGroupMatching_inv)
  show "\<forall>g \<in> set []. group_shape g" by simp
next
  fix results rcd g
  assume inv: "\<forall>g \<in> set results. group_shape g"
    and ng: "new_group transactions
       (transactionsByClient
         (filter (\<lambda>t. is_pending t \<and> t_id t \<notin> usedTransactionIds) transactions))
       results rcd g"
  from new_group_facts(1-5) [OF ng] have "group_shape g"
    unfolding group_shape_def by metis
  with inv show "\<forall>g \<in> set (results @ [g]). group_shape g" by simp
qed

lemma group_fresh_all:
  "\<forall>g \<in> set (performGroupMatching transactions bankRecords usedRecordIds usedTransactionIds).
     group_fresh usedRecordIds usedTransactionIds g"
proof (rule performGroupMatching_inv)
  show "\<forall>g \<in> set []. group_fresh usedRecordIds usedTransactionIds g" by simp
next
  fix results rcd g
  assume inv: "\<forall>g \<in> set results. group_fresh usedRecordIds usedTransactionIds g"
    and rcd: "\<not> b_is_matched rcd" "b_id rcd \<notin> usedRecordIds"
    and ng: "new_group transactions
       (transactionsByClient
         (filter (\<lambda>t. is_pending t \<and> t_id t \<notin> usedTransactionIds) transactions))
       results rcd g"
  from new_group_facts(1,6) [OF ng] rcd have "group_fresh usedRecordIds usedTransactionIds g"
    unfolding group_fresh_def by auto
  with inv show "\<forall>g \<in> set (results @ [g]). group_fresh usedRecordIds usedTransactionIds g"
    by simp
qed

lemma groups_disjoint_snoc:
  assumes "groups_disjoint results"
    and "\<forall>t \<in> set (g_transactions g). \<not> used_in results t"
  shows "groups_disjoint (results @ [g])"
  unfolding groups_disjoint_def
proof (intro allI impI)
  fix i j
  assume ij: "i < j \<and> j < length (results @ [g])"
  show "t_id ` set (g_transactions ((results @ [g]) ! i))
          \<inter> t_id ` set (g_transactions ((results @ [g]) ! j)) = {}"
  proof (cases "j < length results")
    case True
    with ij assms(1) show ?thesis
      by (simp add: groups_disjoint_def nth_append)
  next
    case False
    with ij have j: "j = length results" and i: "i < length results" by simp_all
    then have "results ! i \<in> set results" by simp
    with assms(2) have "t_id ` set (g_transactions (results ! i)) \<inter> t_id ` set (g_transactions g) = {}"
      unfolding used_in_def by force
    with i j show ?thesis by (simp add: nth_append)
  qed
qed

lemma groups_disjoint_all:
  "groups_disjoint (performGroupMatching transactions bankRecords usedRecordIds usedTransactionIds)"
proof (rule performGroupMatching_inv)
  show "groups_disjoint []" by (simp add: groups_disjoint_def)
next
  fix results rcd g
  assume inv: "groups_disjoint results"
    and ng: "new_group transactions
       (transactionsByClient
         (filter (\<lambda>t. is_pending t \<and> t_id t \<notin> usedTransactionIds) transactions))
       results rcd g"
  from inv new_group_facts(7) [OF ng] show "groups_disjoint (results @ [g])"
    by (rule groups_disjoint_snoc)
qed

subsection \<open>The grouping map\<close>

lemma map_push_keys: "fst ` set (map_push m k t) = insert k (fst ` set m)"
  by (induction m k t rule: map_push.induct) auto

lemma map_push_distinct: "distinct (map fst m) \<Longrightarrow> distinct (map fst (map_push m k t))"
proof (induction m k t rule: map_push.induct)
  case (1 k t)
  then show ?case by simp
next
  case (2 k' existing m k t)
  show ?case
  proof (cases "k' = k")
    case True
    with "2.prems" show ?thesis by simp
  next
    case False
    with "2.prems" "2.IH" have "distinct (map fst (map_push m k t))"
      by simp
    moreover from False "2.prems" have "k' \<notin> fst ` set (map_push m k t)"
      by (simp add: map_push_keys)
    ultimately show ?thesis
      using False by simp
  qed
qed

lemma map_push_entries:
  assumes "distinct (map fst m)" and "(k', v') \<in> set (map_push m k t)"
  shows "(k' \<noteq> k \<and> (k', v') \<in> set m)
       \<or> (k' = k \<and> (\<exists>v. (k, v) \<in> set m \<and> v' = v @ [t]))
       \<or> (k' = k \<and> k \<notin> fst ` set m \<and> v' = [t])"
  using assms
proof (induction m k t rule: map_push.induct)
  case (1 k t)
  then show ?case by simp
next
  case (2 k0 existing m k t)
  show ?case
  proof (cases "k0 = k")
    case True
    with "2.prems" show ?thesis
      by (auto simp: image_iff)
  next
    case False
    with "2.prems" consider "(k', v') = (k0, existing)" | "(k', v') \<in> set (map_push m k t)"
      by auto
    then show ?thesis
    proof cases
      case 1
      with False show ?thesis by simp
    next
      case 2
      from "2.prems"(1) have "distinct (map fst m)" by simp
      from "2.IH" [OF False this 2] False show ?thesis
        by auto
    qed
  qed
qed

lemma grouped_step:
  assumes "grouped m xs"
  shows "grouped (group_step m t) (xs @ [t])"
proof (cases "\<exists>p. getParentClientId t = Some p \<and> p \<noteq> []")
  case False
  then have same: "group_step m t = m"
    by (cases "getParentClientId t") (auto simp: group_step_def)
  from False have "filter (\<lambda>u. getParentClientId u = Some k) (xs @ [t])
      = filter (\<lambda>u. getParentClientId u = Some k) xs" if "k \<noteq> []" for k
    using that by auto
  with assms False show ?thesis
    unfolding same grouped_def by auto
next
  case True
  then obtain p where p: "getParentClientId t = Some p" "p \<noteq> []"
    by blast
  then have step: "group_step m t = map_push m p t"
    by (simp add: group_step_def)
  from assms have d: "distinct (map fst m)"
    and ent: "\<And>k v. (k, v) \<in> set m
        \<Longrightarrow> k \<noteq> [] \<and> v = filter (\<lambda>u. getParentClientId u = Some k) xs"
    and cov: "\<And>u k. u \<in> set xs \<Longrightarrow> getParentClientId u = Some k \<Longrightarrow> k \<noteq> []
        \<Longrightarrow> k \<in> fst ` set m"
    unfolding grouped_def by auto
  have "k' \<noteq> [] \<and> v' = filter (\<lambda>u. getParentClientId u = Some k') (xs @ [t])"
    if "(k', v') \<in> set (map_push m p t)" for k' v'
  proof -
    from map_push_entries [OF d that]
    consider (other) "k' \<noteq> p" "(k', v') \<in> set m"
      | (same) v where "k' = p" "(p, v) \<in> set m" "v' = v @ [t]"
      | (fresh) "k' = p" "p \<notin> fst ` set m" "v' = [t]"
      by blast
    then show ?thesis
    proof cases
      case other
      with ent [OF other(2)] p show ?thesis by auto
    next
      case same
      with ent [OF same(2)] p show ?thesis by auto
    next
      case fresh
      have "filter (\<lambda>u. getParentClientId u = Some p) xs = []"
        using cov p(2) fresh(2) by (auto simp: filter_empty_conv)
      with fresh p show ?thesis by simp
    qed
  qed
  moreover have "k \<in> fst ` set (map_push m p t)"
    if "u \<in> set (xs @ [t])" "getParentClientId u = Some k" "k \<noteq> []" for u k
    using that cov p by (auto simp: map_push_keys)
  ultimately show ?thesis
    unfolding step grouped_def using map_push_distinct [OF d] by auto
qed

lemma grouped_foldl: "grouped m xs \<Longrightarrow> grouped (foldl group_step m ts) (xs @ ts)"
proof (induction ts arbitrary: m xs)
  case Nil
  then show ?case by simp
next
  case (Cons t ts)
  from grouped_step [OF Cons.prems] have "grouped (group_step m t) (xs @ [t])" .
  from Cons.IH [OF this] show ?case by simp
qed

text \<open>
  An entry of the map holds the pending transactions with the entry's parent client id,
  in input order.
\<close>

lemma transactionsByClient_entries:
  assumes "(parentId, clientTransactions) \<in> set (transactionsByClient pendingTransactions)"
  shows "parentId \<noteq> []"
    and "clientTransactions
           = filter (\<lambda>t. getParentClientId t = Some parentId) pendingTransactions"
proof -
  have "grouped [] []"
    by (simp add: grouped_def)
  from grouped_foldl [OF this, of pendingTransactions]
  have "grouped (transactionsByClient pendingTransactions) pendingTransactions"
    by (simp add: transactionsByClient_def)
  with assms show "parentId \<noteq> []"
    and "clientTransactions
           = filter (\<lambda>t. getParentClientId t = Some parentId) pendingTransactions"
    unfolding grouped_def by auto
qed

subsection \<open>Each result and the results before it\<close>

lemma built_from_snoc:
  assumes "built_from transactions groups results"
    and "new_group transactions groups results rcd g"
  shows "built_from transactions groups (results @ [g])"
  unfolding built_from_def
proof (intro allI impI)
  fix i
  assume i: "i < length (results @ [g])"
  from assms(2) have rcd: "g_bankRecord g = rcd"
    unfolding new_group_def by blast
  show "new_group transactions groups (take i (results @ [g]))
          (g_bankRecord ((results @ [g]) ! i)) ((results @ [g]) ! i)"
  proof (cases "i < length results")
    case True
    with assms(1) show ?thesis
      by (simp add: built_from_def nth_append)
  next
    case False
    with i have "i = length results" by simp
    with assms(2) rcd show ?thesis by simp
  qed
qed

lemma built_from_all:
  "built_from transactions
     (transactionsByClient
       (filter (\<lambda>t. is_pending t \<and> t_id t \<notin> usedTransactionIds) transactions))
     (performGroupMatching transactions bankRecords usedRecordIds usedTransactionIds)"
proof (rule performGroupMatching_inv)
  show "built_from transactions
     (transactionsByClient
       (filter (\<lambda>t. is_pending t \<and> t_id t \<notin> usedTransactionIds) transactions)) []"
    by (simp add: built_from_def)
next
  fix results rcd g
  assume "built_from transactions
     (transactionsByClient
       (filter (\<lambda>t. is_pending t \<and> t_id t \<notin> usedTransactionIds) transactions)) results"
    and "new_group transactions
       (transactionsByClient
         (filter (\<lambda>t. is_pending t \<and> t_id t \<notin> usedTransactionIds) transactions))
       results rcd g"
  then show "built_from transactions
     (transactionsByClient
       (filter (\<lambda>t. is_pending t \<and> t_id t \<notin> usedTransactionIds) transactions))
     (results @ [g])"
    by (rule built_from_snoc)
qed

text \<open>
  Claim C5, as amended. Every result of \<open>performGroupMatching\<close> has at least two
  transactions, all with the same value of \<open>getParentClientId\<close>; the sum of their
  amounts as the code accumulates it, in double arithmetic, is the amount of the
  result's bank record, and it is the exact sum whenever the magnitudes of the amounts
  add up to at most \<open>2 ^ 53\<close>; the result's \<open>totalAmount\<close> is the record's amount; and
  no bank-record id appears in two results of one run.
\<close>

theorem performGroupMatching_group_shape:
  "(\<forall>g \<in> set (performGroupMatching transactions bankRecords usedRecordIds usedTransactionIds).
      2 \<le> length (g_transactions g)
      \<and> (\<exists>parentId. \<forall>t \<in> set (g_transactions g). getParentClientId t = Some parentId)
      \<and> js_sum (g_transactions g) = Fin (b_amount (g_bankRecord g))
      \<and> (sum_abs (g_transactions g) \<le> 2 ^ 53
           \<longrightarrow> sum_amounts (g_transactions g) = b_amount (g_bankRecord g))
      \<and> g_totalAmount g = b_amount (g_bankRecord g))
   \<and> distinct (map (b_id \<circ> g_bankRecord)
        (performGroupMatching transactions bankRecords usedRecordIds usedTransactionIds))"
proof (intro conjI ballI)
  fix g
  assume "g \<in> set (performGroupMatching transactions bankRecords usedRecordIds usedTransactionIds)"
  with group_shape_all have shape: "group_shape g"
    by blast
  then show "2 \<le> length (g_transactions g)"
    and "\<exists>parentId. \<forall>t \<in> set (g_transactions g). getParentClientId t = Some parentId"
    and "js_sum (g_transactions g) = Fin (b_amount (g_bankRecord g))"
    and "g_totalAmount g = b_amount (g_bankRecord g)"
    by (simp_all add: group_shape_def)
  show "sum_abs (g_transactions g) \<le> 2 ^ 53
        \<longrightarrow> sum_amounts (g_transactions g) = b_amount (g_bankRecord g)"
  proof
    assume "sum_abs (g_transactions g) \<le> 2 ^ 53"
    then have "js_sum (g_transactions g) = Fin (sum_amounts (g_transactions g))"
      by (rule js_sum_exact)
    with shape show "sum_amounts (g_transactions g) = b_amount (g_bankRecord g)"
      by (simp add: group_shape_def)
  qed
next
  show "distinct (map (b_id \<circ> g_bankRecord)
        (performGroupMatching transactions bankRecords usedRecordIds usedTransactionIds))"
    using group_records_distinct [of transactions bankRecords usedRecordIds usedTransactionIds]
    by (simp add: comp_def)
qed

theorem performGroupMatching_group_shape_witness:
  "performGroupMatching [txS1, txS2] [recSub] {} {}
     = [\<lparr>g_transactions = [txS1, txS2], g_bankRecord = recSub, g_clientName = js ''SUB'',
          g_totalAmount = 50000\<rparr>]
   \<and> getParentClientId txS1 = Some (js ''p1'') \<and> getParentClientId txS2 = Some (js ''p1'')
   \<and> sum_abs [txS1, txS2] = 50000
   \<and> sum_amounts [txS1, txS2] = b_amount recSub \<and> b_amount recSub = 50000"
  using performGroupMatching_group_shape [of "[txS1, txS2]" "[recSub]" "{}" "{}"]
  by (simp add: group_defs example_defs string_defs sum_amounts_def sum_abs_def)

theorem performGroupMatching_rounded_sum:
  "t_amount txBig = 2 ^ 53 \<and> t_amount txOne = 1 \<and> b_amount recBig = 2 ^ 53
   \<and> performGroupMatching [txBig, txOne] [recBig] {} {}
       = [\<lparr>g_transactions = [txBig, txOne], g_bankRecord = recBig, g_clientName = js ''ABC'',
            g_totalAmount = 2 ^ 53\<rparr>]
   \<and> sum_amounts [txBig, txOne] = 2 ^ 53 + 1
   \<and> sum_amounts [txBig, txOne] \<noteq> b_amount recBig"
  by (simp add: group_defs bit_length.simps example_defs string_defs sum_amounts_def)

text \<open>
  Claim C4. No result of \<open>performGroupMatching\<close> holds a bank record whose id is in
  \<open>usedRecordIds\<close> or that is flagged \<open>is_matched\<close>, nor a transaction whose id is in
  \<open>usedTransactionIds\<close>; no bank-record id appears in two results, and two different
  results of one run share no transaction id.
\<close>

theorem performGroupMatching_no_reuse:
  "(\<forall>g \<in> set (performGroupMatching transactions bankRecords usedRecordIds usedTransactionIds).
      b_id (g_bankRecord g) \<notin> usedRecordIds
      \<and> \<not> b_is_matched (g_bankRecord g)
      \<and> (\<forall>t \<in> set (g_transactions g). t_id t \<notin> usedTransactionIds))
   \<and> distinct (map (b_id \<circ> g_bankRecord)
        (performGroupMatching transactions bankRecords usedRecordIds usedTransactionIds))
   \<and> (\<forall>i j. i < j
          \<and> j < length (performGroupMatching transactions bankRecords usedRecordIds
                         usedTransactionIds)
        \<longrightarrow> t_id ` set (g_transactions
                 (performGroupMatching transactions bankRecords usedRecordIds
                    usedTransactionIds ! i))
            \<inter> t_id ` set (g_transactions
                 (performGroupMatching transactions bankRecords usedRecordIds
                    usedTransactionIds ! j)) = {})"
  using group_fresh_all [of transactions bankRecords usedRecordIds usedTransactionIds]
    group_records_distinct [of transactions bankRecords usedRecordIds usedTransactionIds]
    groups_disjoint_all [of transactions bankRecords usedRecordIds usedTransactionIds]
  by (simp add: group_fresh_def groups_disjoint_def comp_def)

theorem performGroupMatching_no_reuse_witness:
  "concat (map (map t_id \<circ> g_transactions)
     (performGroupMatching [txP, txS1, txS2, txS4, txS5] [recParent, recParent2, recParent3]
        {js ''r2''} {js ''t3''}))
     = [js ''t1'', js ''t2'', js ''t4'', js ''t5'']
   \<and> map (b_id \<circ> g_bankRecord)
     (performGroupMatching [txP, txS1, txS2, txS4, txS5] [recParent, recParent2, recParent3]
        {js ''r2''} {js ''t3''})
     = [js ''r1'', js ''r3'']"
  using performGroupMatching_no_reuse [of "[txP, txS1, txS2, txS4, txS5]"
      "[recParent, recParent2, recParent3]" "{js ''r2''}" "{js ''t3''}"]
  by (simp add: group_defs example_defs string_defs)

lemma displayNameOf_cases:
  assumes "t_clients first = Some c"
  shows "(\<not> truthy (c_parent_id c) \<longrightarrow> displayNameOf transactions first = c_name c)
       \<and> (truthy (c_parent_id c)
            \<and> (\<forall>t \<in> set transactions. \<forall>c'. t_clients t = Some c'
                   \<longrightarrow> Some (c_id c') \<noteq> c_parent_id c)
            \<longrightarrow> displayNameOf transactions first = c_name c)
       \<and> (\<forall>pt p. truthy (c_parent_id c)
              \<and> find (\<lambda>t. case t_clients t of None \<Rightarrow> False
                            | Some c' \<Rightarrow> Some (c_id c') = c_parent_id c) transactions = Some pt
              \<and> t_clients pt = Some p
            \<longrightarrow> displayNameOf transactions first
                  = (if c_name p \<noteq> [] then c_name p else c_name c))"
proof (intro conjI impI allI)
  assume "\<not> truthy (c_parent_id c)"
  with assms show "displayNameOf transactions first = c_name c"
    by (simp add: displayNameOf_def parentClientOf_def clientNameOf_def)
next
  assume a: "truthy (c_parent_id c)
      \<and> (\<forall>t \<in> set transactions. \<forall>c'. t_clients t = Some c' \<longrightarrow> Some (c_id c') \<noteq> c_parent_id c)"
  then have "find (\<lambda>t. case t_clients t of None \<Rightarrow> False
                       | Some c' \<Rightarrow> Some (c_id c') = c_parent_id c) transactions = None"
    by (auto simp: find_None_iff split: option.splits)
  with assms a show "displayNameOf transactions first = c_name c"
    by (simp add: displayNameOf_def parentClientOf_def clientNameOf_def)
next
  fix pt p
  assume "truthy (c_parent_id c)
      \<and> find (\<lambda>t. case t_clients t of None \<Rightarrow> False
                  | Some c' \<Rightarrow> Some (c_id c') = c_parent_id c) transactions = Some pt
      \<and> t_clients pt = Some p"
  with assms show "displayNameOf transactions first
      = (if c_name p \<noteq> [] then c_name p else c_name c)"
    by (simp add: displayNameOf_def parentClientOf_def clientNameOf_def)
qed

text \<open>
  Claim C6, as amended. Take the result at position \<open>i\<close> of a run of
  \<open>performGroupMatching\<close>. Its transactions, at least two, belong to one parent client
  id, and the representative \<open>first\<close> is the first, in input order, of the pending
  transactions with that parent client id that no earlier result of the run uses
  (pending: outstanding and not in \<open>usedTransactionIds\<close>). The display name
  recorded with the result matches the depositor, and it is: the name of \<open>first\<close>'s own
  client when that client has no parent id; the same when it has one but no transaction
  of the input list is joined to a client with that id; and otherwise the name of the
  client joined to the first transaction of the input list that is joined to a client
  with that id, unless that name is empty, in which case it is again the own name. The
  function sees clients only through the transactions handed to it.
\<close>

theorem performGroupMatching_display_name:
  "let results = performGroupMatching transactions bankRecords usedRecordIds usedTransactionIds;
       pendingTransactions =
         filter (\<lambda>t. is_pending t \<and> t_id t \<notin> usedTransactionIds) transactions
   in \<forall>i < length results.
        \<exists>parentId first rest c.
          parentId \<noteq> []
          \<and> filter (\<lambda>t. getParentClientId t = Some parentId \<and> \<not> used_in (take i results) t)
                pendingTransactions = first # rest
          \<and> 2 \<le> length (g_transactions (results ! i))
          \<and> set (g_transactions (results ! i)) \<subseteq> set (first # rest)
          \<and> t_clients first = Some c
          \<and> isNameMatch (g_clientName (results ! i))
                (or_empty (b_depositor (g_bankRecord (results ! i))))
          \<and> (\<not> truthy (c_parent_id c) \<longrightarrow> g_clientName (results ! i) = c_name c)
          \<and> (truthy (c_parent_id c)
               \<and> (\<forall>t \<in> set transactions. \<forall>c'. t_clients t = Some c'
                      \<longrightarrow> Some (c_id c') \<noteq> c_parent_id c)
               \<longrightarrow> g_clientName (results ! i) = c_name c)
          \<and> (\<forall>pt p. truthy (c_parent_id c)
                 \<and> find (\<lambda>t. case t_clients t of None \<Rightarrow> False
                               | Some c' \<Rightarrow> Some (c_id c') = c_parent_id c) transactions
                     = Some pt
                 \<and> t_clients pt = Some p
               \<longrightarrow> g_clientName (results ! i)
                     = (if c_name p \<noteq> [] then c_name p else c_name c))"
  unfolding Let_def
proof (intro allI impI)
  let ?results =
    "performGroupMatching transactions bankRecords usedRecordIds usedTransactionIds"
  let ?pending = "filter (\<lambda>t. is_pending t \<and> t_id t \<notin> usedTransactionIds) transactions"
  fix i
  assume "i < length ?results"
  with built_from_all [of transactions usedTransactionIds bankRecords usedRecordIds]
  have "new_group transactions (transactionsByClient ?pending) (take i ?results)
          (g_bankRecord (?results ! i)) (?results ! i)"
    by (simp add: built_from_def)
  then obtain parentId clientTransactions first rest where
    grp: "(parentId, clientTransactions) \<in> set (transactionsByClient ?pending)"
    and avail: "filter (\<lambda>t. \<not> used_in (take i ?results) t) clientTransactions = first # rest"
    and nm: "isNameMatch (displayNameOf transactions first)
               (or_empty (b_depositor (g_bankRecord (?results ! i))))"
    and sub: "set (g_transactions (?results ! i)) \<subseteq> set (first # rest)"
    and len: "2 \<le> length (g_transactions (?results ! i))"
    and name: "g_clientName (?results ! i) = displayNameOf transactions first"
    unfolding new_group_def by blast
  note ent = transactionsByClient_entries [OF grp]
  from avail have fl: "filter (\<lambda>t. getParentClientId t = Some parentId
        \<and> \<not> used_in (take i ?results) t) ?pending = first # rest"
    by (simp add: ent(2))
  then have "first \<in> set (filter (\<lambda>t. getParentClientId t = Some parentId
        \<and> \<not> used_in (take i ?results) t) ?pending)"
    by simp
  then have "getParentClientId first = Some parentId"
    by simp
  then obtain c where c: "t_clients first = Some c"
    by (cases "t_clients first") (simp_all add: getParentClientId_def)
  note sym = name [symmetric]
  note dn = displayNameOf_cases [OF c, of transactions, unfolded sym]
  from nm have nm': "isNameMatch (g_clientName (?results ! i))
      (or_empty (b_depositor (g_bankRecord (?results ! i))))"
    by (simp only: name)
  show "\<exists>parentId first rest c.
          parentId \<noteq> []
          \<and> filter (\<lambda>t. getParentClientId t = Some parentId \<and> \<not> used_in (take i ?results) t)
                ?pending = first # rest
          \<and> 2 \<le> length (g_transactions (?results ! i))
          \<and> set (g_transactions (?results ! i)) \<subseteq> set (first # rest)
          \<and> t_clients first = Some c
          \<and> isNameMatch (g_clientName (?results ! i))
                (or_empty (b_depositor (g_bankRecord (?results ! i))))
          \<and> (\<not> truthy (c_parent_id c) \<longrightarrow> g_clientName (?results ! i) = c_name c)
          \<and> (truthy (c_parent_id c)
               \<and> (\<forall>t \<in> set transactions. \<forall>c'. t_clients t = Some c'
                      \<longrightarrow> Some (c_id c') \<noteq> c_parent_id c)
               \<longrightarrow> g_clientName (?results ! i) = c_name c)
          \<and> (\<forall>pt p. truthy (c_parent_id c)
                 \<and> find (\<lambda>t. case t_clients t of None \<Rightarrow> False
                               | Some c' \<Rightarrow> Some (c_id c') = c_parent_id c) transactions
                     = Some pt
                 \<and> t_clients pt = Some p
               \<longrightarrow> g_clientName (?results ! i)
                     = (if c_name p \<noteq> [] then c_name p else c_name c))"
    by (rule exI [of _ parentId], rule exI [of _ first], rule exI [of _ rest],
        rule exI [of _ c], intro conjI)
       (rule ent(1) fl len sub c nm' dn [THEN conjunct1] dn [THEN conjunct2, THEN conjunct1]
          dn [THEN conjunct2, THEN conjunct2])+
qed

theorem performGroupMatching_display_name_witness:
  "t_clients txS1 = Some clientSub \<and> c_parent_id clientSub = Some (c_id clientParent)
   \<and> t_clients txP = Some clientParent
   \<and> map g_clientName (performGroupMatching [txS1, txS2, txP] [recParent] {} {})
       = [c_name clientParent]
   \<and> map g_clientName (performGroupMatching [txP, txS1, txS2] [recParent] {} {})
       = [c_name clientParent]
   \<and> getParentClientId txAlpha = getParentClientId txBeta
   \<and> map g_clientName (performGroupMatching [txAlpha, txBeta] [recAlpha] {} {})
       = [c_name clientAlpha]
   \<and> c_name clientAlpha \<noteq> c_name clientBeta"
  using performGroupMatching_display_name [of "[txS1, txS2, txP]" "[recParent]" "{}" "{}"]
  by (simp add: group_defs example_defs string_defs)

theorem performGroupMatching_display_name_sub_client:
  "t_clients txS1 = Some clientSub \<and> t_clients txS2 = Some clientSub
   \<and> c_parent_id clientSub = Some (c_id clientParent)
   \<and> performGroupMatching [txS1, txS2] [recSub] {} {}
       = [\<lparr>g_transactions = [txS1, txS2], g_bankRecord = recSub,
            g_clientName = c_name clientSub, g_totalAmount = 50000\<rparr>]
   \<and> c_name clientSub \<noteq> c_name clientParent"
  by (simp add: group_defs example_defs string_defs)

section \<open>Reconciled inputs\<close>

lemma foldl_scan_no_records:
  "foldl (\<lambda>results t. results) acc ts = acc"
  by (induction ts arbitrary: acc) simp_all

text \<open>
  Claim C9. When every bank record is flagged \<open>is_matched\<close> and every transaction is
  completed, paid by card or has a paid date that is not null, \<open>performMatching\<close> and
  \<open>performGroupMatching\<close> both return the empty list.
\<close>

theorem reconciled_inputs_no_matches:
  assumes "\<forall>r \<in> set bankRecords. b_is_matched r"
    and "\<forall>t \<in> set transactions.
           t_status t = Completed \<or> t_status t = Card \<or> t_paid_at t \<noteq> None"
  shows "performMatching transactions bankRecords = []
       \<and> performGroupMatching transactions bankRecords usedRecordIds usedTransactionIds = []"
proof -
  from assms(1) have "filter (\<lambda>r. \<not> b_is_matched r) bankRecords = []"
    and "filter (\<lambda>r. \<not> b_is_matched r \<and> b_id r \<notin> usedRecordIds) bankRecords = []"
    by (simp_all add: filter_empty_conv)
  then show ?thesis
    by (simp add: performMatching_def performGroupMatching_def Let_def foldl_scan_no_records)
qed

theorem reconciled_inputs_no_matches_witness:
  "b_is_matched recDone \<and> t_status txDone = Completed
   \<and> performMatching [txDone] [recDone] = []
   \<and> performGroupMatching [txDone] [recDone] {} {} = []"
proof -
  have r: "\<forall>r \<in> set [recDone]. b_is_matched r"
    by (simp add: recDone_def)
  have t: "\<forall>t \<in> set [txDone].
      t_status t = Completed \<or> t_status t = Card \<or> t_paid_at t \<noteq> None"
    by (simp add: txDone_def)
  from reconciled_inputs_no_matches [OF r t, of "{}" "{}"] show ?thesis
    by (simp add: recDone_def txDone_def)
qed

section \<open>Manual group matching\<close>

lemmas manual_defs =
  handleConfirmGroupMatch_def confirmDisabled_def displayedDifference_def
  selectedTransactionsTotal_def selectedTxsOf_def manualClientName_def clientNameOf_def
  manualState_def manualPool_def stateShort_def stateExact_def stateSingle_def
  stateBig_def stateCancel_def fcard_finsert_if sum_amounts_def sum_abs_def number_defs

lemma mismatchMessage_not_empty: "mismatchMessage formatCurrency a b \<noteq> []"
  by (simp add: mismatchMessage_def)

lemma handleConfirmGroupMatch_no_deposit:
  "selectedRecordForGroup s = None \<Longrightarrow> handleConfirmGroupMatch formatCurrency s = s"
  by (simp add: handleConfirmGroupMatch_def)

text \<open>
  The total shown and tested is the sum of the amounts of the selected transactions of
  the pool, accumulated in double arithmetic; it is their exact sum while the
  magnitudes add up to at most \<open>2 ^ 53\<close>.
\<close>

lemma selectedTransactionsTotal_js_sum: "selectedTransactionsTotal s = js_sum (selectedTxsOf s)"
  by (simp add: selectedTransactionsTotal_def js_sum_def)

lemma selectedTransactionsTotal_exact:
  "sum_abs (selectedTxsOf s) \<le> 2 ^ 53
   \<Longrightarrow> selectedTransactionsTotal s = Fin (sum_amounts (selectedTxsOf s))"
  by (simp add: selectedTransactionsTotal_js_sum js_sum_exact)

text \<open>
  Claim C7, as amended. With a deposit selected and selected transactions (those of the
  unmatched pool whose id is selected) whose magnitudes add up to at most \<open>2 ^ 53\<close>, \<open>handleConfirmGroupMatch\<close> appends a group match
  of the selected transactions and the deposit, and removes the deposit and the selected
  transactions from the unmatched pools, if and only if at least two ids are selected
  and the amounts of the selected transactions sum to the deposit's amount. When at
  least two ids are selected and the sum differs, it only sets the error message, which
  is not empty; the group matches and both pools stay as they were. When fewer than two
  ids are selected it returns without any change, and so without a message.
\<close>

theorem handleConfirmGroupMatch_cases:
  assumes "selectedRecordForGroup s = Some selected"
    and "selectedTxs
           = filter (\<lambda>t. t_id t |\<in>| selectedTransactionIds s) (unmatchedTransactions s)"
    and "sum_abs selectedTxs \<le> 2 ^ 53"
  shows "((groupMatchResults (handleConfirmGroupMatch formatCurrency s) \<noteq> groupMatchResults s)
            = (2 \<le> fcard (selectedTransactionIds s)
               \<and> sum_amounts selectedTxs = b_amount selected))
       \<and> (2 \<le> fcard (selectedTransactionIds s) \<and> sum_amounts selectedTxs = b_amount selected
            \<longrightarrow> groupMatchResults (handleConfirmGroupMatch formatCurrency s)
                  = groupMatchResults s @
                      [\<lparr>g_transactions = selectedTxs, g_bankRecord = selected,
                        g_clientName = manualClientName selectedTxs,
                        g_totalAmount = b_amount selected\<rparr>]
                \<and> unmatchedRecords (handleConfirmGroupMatch formatCurrency s)
                  = filter (\<lambda>r. b_id r \<noteq> b_id selected) (unmatchedRecords s)
                \<and> unmatchedTransactions (handleConfirmGroupMatch formatCurrency s)
                  = filter (\<lambda>t. t_id t |\<notin>| selectedTransactionIds s) (unmatchedTransactions s)
                \<and> error (handleConfirmGroupMatch formatCurrency s) = [])
       \<and> (2 \<le> fcard (selectedTransactionIds s) \<and> sum_amounts selectedTxs \<noteq> b_amount selected
            \<longrightarrow> handleConfirmGroupMatch formatCurrency s
                  = s\<lparr>error := mismatchMessage formatCurrency (Fin (sum_amounts selectedTxs))
                                   (Fin (b_amount selected))\<rparr>
                \<and> error (handleConfirmGroupMatch formatCurrency s) \<noteq> [])
       \<and> (fcard (selectedTransactionIds s) < 2 \<longrightarrow> handleConfirmGroupMatch formatCurrency s = s)"
proof -
  from assms(2) have eq: "selectedTxs = selectedTxsOf s"
    by (simp add: selectedTxsOf_def)
  with assms(3) have "selectedTransactionsTotal s = Fin (sum_amounts (selectedTxsOf s))"
    by (simp add: selectedTransactionsTotal_exact)
  with assms(1) show ?thesis
    unfolding eq
    by (simp add: handleConfirmGroupMatch_def mismatchMessage_not_empty not_less)
qed

theorem handleConfirmGroupMatch_cases_witness:
  "selectedRecordForGroup stateExact = Some recA
   \<and> fcard (selectedTransactionIds stateExact) = 3
   \<and> map t_amount (selectedTxsOf stateExact) = [30000, 12000, 8000]
   \<and> sum_amounts (selectedTxsOf stateExact) = b_amount recA
   \<and> concat (map (map t_id \<circ> g_transactions)
       (groupMatchResults (handleConfirmGroupMatch plainCurrency stateExact)))
       = [js ''t1'', js ''t4'', js ''t6'']
   \<and> unmatchedRecords (handleConfirmGroupMatch plainCurrency stateExact) = []
   \<and> map t_id (unmatchedTransactions (handleConfirmGroupMatch plainCurrency stateExact))
       = [js ''t2'', js ''t5'']"
proof -
  have sel: "selectedRecordForGroup stateExact = Some recA"
    by (simp add: manual_defs)
  have bound: "sum_abs (selectedTxsOf stateExact) \<le> 2 ^ 53"
    by (simp add: manual_defs example_defs)
  from handleConfirmGroupMatch_cases [OF sel selectedTxsOf_def bound, of plainCurrency] sel
  show ?thesis
    by (simp add: manual_defs example_defs)
qed

theorem handleConfirmGroupMatch_silent:
  "selectedRecordForGroup stateSingle = Some recA
   \<and> sum_amounts (selectedTxsOf stateSingle) = 19000 \<and> b_amount recA = 50000
   \<and> error stateSingle = []
   \<and> error (handleConfirmGroupMatch plainCurrency stateSingle) = []
   \<and> handleConfirmGroupMatch plainCurrency stateSingle = stateSingle
   \<and> selectedRecordForGroup stateBig = Some recBig
   \<and> fcard (selectedTransactionIds stateBig) = 2
   \<and> sum_amounts (selectedTxsOf stateBig) = 2 ^ 53 + 1 \<and> b_amount recBig = 2 ^ 53
   \<and> length (groupMatchResults (handleConfirmGroupMatch plainCurrency stateBig)) = 1
   \<and> unmatchedTransactions (handleConfirmGroupMatch plainCurrency stateBig) = []"
  by (simp add: manual_defs bit_length.simps example_defs)

text \<open>
  Claim C8, as amended. With a deposit of 50000 selected and selected transactions
  whose amounts sum to 49000 and whose magnitudes add up to at most \<open>2 ^ 53\<close>, the confirm
  button is disabled and the number shown in the difference row is 1000: the deposit's
  amount minus the sum of the selection.
\<close>

theorem manual_difference_and_button:
  assumes "selectedRecordForGroup s = Some selected"
    and "b_amount selected = 50000"
    and "selectedTxs
           = filter (\<lambda>t. t_id t |\<in>| selectedTransactionIds s) (unmatchedTransactions s)"
    and "sum_amounts selectedTxs = 49000"
    and "sum_abs selectedTxs \<le> 2 ^ 53"
  shows "confirmDisabled s = Some True \<and> displayedDifference s = Some (Fin 1000)"
proof -
  from assms(3) have "selectedTxs = selectedTxsOf s"
    by (simp add: selectedTxsOf_def)
  with assms(4,5) have total: "selectedTransactionsTotal s = Fin 49000"
    by (simp add: selectedTransactionsTotal_exact)
  have "js_sub 50000 (Fin 49000) = Fin (50000 - 49000)"
    by (rule js_sub_exact) simp
  with total assms(1,2) show ?thesis
    by (simp add: confirmDisabled_def displayedDifference_def)
qed

theorem manual_difference_and_button_witness:
  "selectedRecordForGroup stateShort = Some recA \<and> b_amount recA = 50000
   \<and> map t_amount (selectedTxsOf stateShort) = [30000, 12000, 7000]
   \<and> sum_amounts (selectedTxsOf stateShort) = 49000
   \<and> confirmDisabled stateShort = Some True
   \<and> displayedDifference stateShort = Some (Fin 1000)"
proof -
  have h: "selectedRecordForGroup stateShort = Some recA" "b_amount recA = 50000"
    "sum_amounts (selectedTxsOf stateShort) = 49000"
    "sum_abs (selectedTxsOf stateShort) \<le> 2 ^ 53"
    by (simp_all add: manual_defs example_defs)
  have "map t_amount (selectedTxsOf stateShort) = [30000, 12000, 7000]"
    by (simp add: manual_defs example_defs)
  with manual_difference_and_button [OF h(1,2) selectedTxsOf_def h(3,4)] h
  show ?thesis
    by simp
qed

theorem manual_difference_sign:
  "selectedRecordForGroup stateShort = Some recA \<and> b_amount recA = 50000
   \<and> sum_amounts (selectedTxsOf stateShort) = 49000
   \<and> displayedDifference stateShort = Some (Fin 1000)
   \<and> displayedDifference stateShort \<noteq> Some (Fin (- 1000))
   \<and> selectedRecordForGroup stateCancel = Some recA
   \<and> map t_amount (selectedTxsOf stateCancel) = [2 ^ 53, 1, - (2 ^ 53), 48999]
   \<and> sum_amounts (selectedTxsOf stateCancel) = 49000
   \<and> displayedDifference stateCancel = Some (Fin 1001)"
  by (simp add: manual_defs bit_length.simps example_defs)

end
